theory Spec2Isabelle
  imports Complex_Main
begin

section \<open>Data model of the nesting calculator\<close>

text \<open>
  The program (\<^verbatim>\<open>src/main.py\<close>) packs copies of one shape on rectangular sheets.
  Python floats are modelled by the real numbers, Python's unbounded \<^verbatim>\<open>int\<close> by
  \<^typ>\<open>int\<close> and \<^typ>\<open>nat\<close>.  A \<^verbatim>\<open>Dict[str, float]\<close> is a map from strings to reals.
  Dictionaries are objects: two records may hold the same dictionary or two copies of
  it.  The model therefore keeps an explicit store, a list of dictionaries in which an
  address is an index; allocating a dictionary appends it to the store.
\<close>

type_synonym params = "string \<rightharpoonup> real"
type_synonym addr = nat
type_synonym store = "params list"

text \<open>The dictionary \<^verbatim>\<open>{'type': .., 'params': .., 'x': .., 'y': ..}\<close> appended for a
  placed shape; \<open>ps_params\<close> is the address of the copied parameter dictionary.\<close>

record placed_shape =
  ps_type :: string
  ps_params :: addr
  ps_x :: real
  ps_y :: real

datatype error =
    KeyError string
  | ValueError string
  | RuntimeError string
  | ZeroDivisionError
  | OverflowError

text \<open>\<^verbatim>\<open>params[k]\<close> raises \<^verbatim>\<open>KeyError\<close> on a missing key.\<close>

definition getitem :: "params \<Rightarrow> string \<Rightarrow> error + real" where
  "getitem d k = (case d k of None \<Rightarrow> Inl (KeyError k) | Some v \<Rightarrow> Inr v)"

text \<open>\<^verbatim>\<open>int(a / b)\<close> on floats: the division raises on a zero divisor, and \<^verbatim>\<open>int\<close>
  truncates towards zero.  A quotient of magnitude \<open>2\<^sup>1\<^sup>0\<^sup>2\<^sup>4 - 2\<^sup>9\<^sup>7\<^sup>0\<close> or more is rounded
  to an infinity, which \<^verbatim>\<open>int\<close> refuses with \<^verbatim>\<open>OverflowError\<close>.\<close>

definition py_int :: "real \<Rightarrow> int" where
  "py_int x = (if 0 \<le> x then \<lfloor>x\<rfloor> else \<lceil>x\<rceil>)"

definition overflow_bound :: real where
  "overflow_bound = 2 ^ 1024 - 2 ^ 970"

definition int_div :: "real \<Rightarrow> real \<Rightarrow> error + int" where
  "int_div a b =
    (if b = 0 then Inl ZeroDivisionError
     else if overflow_bound \<le> \<bar>a / b\<bar> then Inl OverflowError
     else Inr (py_int (a / b)))"

section \<open>\<^verbatim>\<open>pack_shapes\<close>, lines 22 to 152\<close>

text \<open>
  The first \<^verbatim>\<open>if\<close>/\<^verbatim>\<open>elif\<close> chain (lines 33 to 71) binds the locals that the loops
  read: \<^verbatim>\<open>r\<close>, \<^verbatim>\<open>L\<close> or \<^verbatim>\<open>a\<close> according to the shape type (the rectangle reads its
  sizes from \<^verbatim>\<open>params\<close> inside the loops), the possibly rebound \<^verbatim>\<open>params\<close>, and the
  grid increments \<^verbatim>\<open>dx\<close>, \<^verbatim>\<open>dy\<close>.
\<close>

datatype shape_vars =
    CircleV real
  | SquareV real
  | RectangleV
  | TriangleV real
  | SemiCircleV real

record frame =
  f_shape_type :: string
  f_vars :: shape_vars
  f_params :: addr
  f_dx :: real
  f_dy :: real
  f_num_shapes :: int
  f_sheet_w :: real
  f_sheet_h :: real

definition grid_increments ::
  "store \<Rightarrow> string \<Rightarrow> addr \<Rightarrow> real \<Rightarrow> real \<Rightarrow> real \<Rightarrow>
   (error + shape_vars \<times> addr \<times> real \<times> real) \<times> store" where
  "grid_increments st shape_type params sheet_w sheet_h clearance =
    (if shape_type = ''circle'' then
       (case getitem (st ! params) ''r'' of
          Inl e \<Rightarrow> (Inl e, st)
        | Inr r \<Rightarrow>
            let D_eff = 2 * r + clearance
            in (Inr (CircleV r, params, D_eff, D_eff * sqrt 3 / 2), st))
     else if shape_type = ''square'' then
       (case getitem (st ! params) ''L'' of
          Inl e \<Rightarrow> (Inl e, st)
        | Inr L \<Rightarrow>
            let D_eff = L + clearance
            in (Inr (SquareV L, params, D_eff, D_eff), st))
     else if shape_type = ''rectangle'' then
       (case getitem (st ! params) ''l'' of
          Inl e \<Rightarrow> (Inl e, st)
        | Inr l \<Rightarrow>
       (case getitem (st ! params) ''w'' of
          Inl e \<Rightarrow> (Inl e, st)
        | Inr w \<Rightarrow>
            let dx1 = l + clearance; dy1 = w + clearance;
                dx2 = w + clearance; dy2 = l + clearance
            in
       (case int_div sheet_h dy1 of Inl e \<Rightarrow> (Inl e, st) | Inr rows1 \<Rightarrow>
       (case int_div sheet_w dx1 of Inl e \<Rightarrow> (Inl e, st) | Inr cols1 \<Rightarrow>
       (case int_div sheet_h dy2 of Inl e \<Rightarrow> (Inl e, st) | Inr rows2 \<Rightarrow>
       (case int_div sheet_w dx2 of Inl e \<Rightarrow> (Inl e, st) | Inr cols2 \<Rightarrow>
          if rows1 * cols1 \<ge> rows2 * cols2 then
            (Inr (RectangleV, params, dx1, dy1), st)
          else
            (Inr (RectangleV, length st, dx2, dy1),
             st @ [[''l'' \<mapsto> w, ''w'' \<mapsto> l]])))))))
     else if shape_type = ''triangle'' then
       (case getitem (st ! params) ''a'' of
          Inl e \<Rightarrow> (Inl e, st)
        | Inr a \<Rightarrow>
            let h = a * sqrt 3 / 2
            in (Inr (TriangleV a, params, a + clearance, h + clearance), st))
     else if shape_type = ''semi-circle'' then
       (case getitem (st ! params) ''r'' of
          Inl e \<Rightarrow> (Inl e, st)
        | Inr r \<Rightarrow> (Inr (SemiCircleV r, params, 2 * r + clearance, r + clearance), st))
     else (Inl (ValueError shape_type), st))"

text \<open>Lines 79 to 104: the centre \<^verbatim>\<open>y\<close> of a row and the value it is compared with.
  The argument \<open>d\<close> is the dictionary that \<^verbatim>\<open>params\<close> refers to when the line runs.\<close>

definition row_y :: "frame \<Rightarrow> params \<Rightarrow> nat \<Rightarrow> error + real \<times> real" where
  "row_y f d row =
    (case f_vars f of
       CircleV r \<Rightarrow> Inr (r + real row * f_dy f, f_sheet_h f - r)
     | SquareV L \<Rightarrow> Inr (L / 2 + real row * f_dy f, f_sheet_h f - L / 2)
     | RectangleV \<Rightarrow>
         (case getitem d ''w'' of
            Inl e \<Rightarrow> Inl e
          | Inr w \<Rightarrow> Inr (w / 2 + real row * f_dy f, f_sheet_h f - w / 2))
     | TriangleV a \<Rightarrow>
         let h = a * sqrt 3 / 2
         in Inr (h / 3 + real row * f_dy f, f_sheet_h f - 2 * h / 3)
     | SemiCircleV r \<Rightarrow> Inr (r + real row * f_dy f, f_sheet_h f - r))"

definition x_offset_of :: "frame \<Rightarrow> nat \<Rightarrow> real" where
  "x_offset_of f row =
    (case f_vars f of
       CircleV r \<Rightarrow> (if row mod 2 \<noteq> 0 then f_dx f / 2 else 0)
     | _ \<Rightarrow> 0)"

text \<open>Lines 109 to 123: the centre \<^verbatim>\<open>x\<close> of a column and \<^verbatim>\<open>bound\<close>.\<close>

definition col_x :: "frame \<Rightarrow> params \<Rightarrow> real \<Rightarrow> nat \<Rightarrow> error + real \<times> real" where
  "col_x f d x_offset col =
    (case f_vars f of
       CircleV r \<Rightarrow> Inr (x_offset + r + real col * f_dx f, f_sheet_w f - r)
     | SquareV L \<Rightarrow> Inr (x_offset + L / 2 + real col * f_dx f, f_sheet_w f - L / 2)
     | RectangleV \<Rightarrow>
         (case getitem d ''l'' of
            Inl e \<Rightarrow> Inl e
          | Inr l \<Rightarrow> Inr (x_offset + l / 2 + real col * f_dx f, f_sheet_w f - l / 2))
     | TriangleV a \<Rightarrow> Inr (x_offset + a / 2 + real col * f_dx f, f_sheet_w f - a / 2)
     | SemiCircleV r \<Rightarrow> Inr (x_offset + r + real col * f_dx f, f_sheet_w f - r))"

text \<open>
  The inner \<^verbatim>\<open>while True\<close> (lines 107 to 138).  The loop state is \<^verbatim>\<open>col\<close>, \<^verbatim>\<open>placed\<close>,
  \<^verbatim>\<open>sheet_positions\<close> and the store; \<^verbatim>\<open>params.copy()\<close> allocates a new dictionary
  with the contents of \<^verbatim>\<open>params\<close>.  Every iteration that does not leave the loop
  increments \<^verbatim>\<open>placed\<close>, which is bounded by \<^verbatim>\<open>num_shapes\<close>.
\<close>

function col_loop ::
  "frame \<Rightarrow> real \<Rightarrow> real \<Rightarrow> nat \<Rightarrow> int \<Rightarrow> placed_shape list \<Rightarrow> store \<Rightarrow>
   (error + int \<times> placed_shape list) \<times> store" where
  "col_loop f x_offset y col placed sheet_positions st =
    (case col_x f (st ! f_params f) x_offset col of
       Inl e \<Rightarrow> (Inl e, st)
     | Inr (x, bound) \<Rightarrow>
         if x > bound then (Inr (placed, sheet_positions), st)
         else if placed < f_num_shapes f then
           col_loop f x_offset y (col + 1) (placed + 1)
             (sheet_positions @
                [\<lparr>ps_type = f_shape_type f, ps_params = length st, ps_x = x, ps_y = y\<rparr>])
             (st @ [st ! f_params f])
         else (Inr (placed, sheet_positions), st))"
  by pat_completeness auto
termination
  by (relation "measure (\<lambda>(f, x_offset, y, col, placed, sp, st). nat (f_num_shapes f - placed))")
     auto

declare col_loop.simps [simp del]

text \<open>
  The middle \<^verbatim>\<open>while True\<close> (lines 77 to 142).  It runs for ever when no row is
  rejected and no shape is placed, so it is a partial function: \<open>None\<close> is the run
  that does not return.
\<close>

partial_function (option) row_loop ::
  "frame \<Rightarrow> nat \<Rightarrow> int \<Rightarrow> placed_shape list \<Rightarrow> store \<Rightarrow>
   ((error + int \<times> placed_shape list) \<times> store) option" where
  "row_loop f row placed sheet_positions st =
    (case row_y f (st ! f_params f) row of
       Inl e \<Rightarrow> Some (Inl e, st)
     | Inr (y, limit) \<Rightarrow>
         if y > limit then Some (Inr (placed, sheet_positions), st)
         else
           (case col_loop f (x_offset_of f row) y 0 placed sheet_positions st of
              (Inl e, st') \<Rightarrow> Some (Inl e, st')
            | (Inr (placed', sheet_positions'), st') \<Rightarrow>
                if placed' \<ge> f_num_shapes f
                then Some (Inr (placed', sheet_positions'), st')
                else row_loop f (row + 1) placed' sheet_positions' st'))"

text \<open>The outer \<^verbatim>\<open>while placed < num_shapes\<close> (lines 74 to 150).\<close>

partial_function (option) sheets_loop ::
  "frame \<Rightarrow> int \<Rightarrow> placed_shape list list \<Rightarrow> store \<Rightarrow>
   ((error + placed_shape list list) \<times> store) option" where
  "sheets_loop f placed sheets st =
    (if placed < f_num_shapes f then
       (case row_loop f 0 placed [] st of
          None \<Rightarrow> None
        | Some (Inl e, st') \<Rightarrow> Some (Inl e, st')
        | Some (Inr (placed', sheet_positions), st') \<Rightarrow>
            if sheet_positions = [] then Some (Inl (RuntimeError (f_shape_type f)), st')
            else if placed' \<ge> f_num_shapes f
            then Some (Inr (sheets @ [sheet_positions]), st')
            else sheets_loop f placed' (sheets @ [sheet_positions]) st')
     else Some (Inr sheets, st))"

definition pack_shapes ::
  "store \<Rightarrow> string \<Rightarrow> addr \<Rightarrow> int \<Rightarrow> real \<Rightarrow> real \<Rightarrow> real \<Rightarrow>
   ((error + placed_shape list list) \<times> store) option" where
  "pack_shapes st shape_type params num_shapes sheet_w sheet_h clearance =
    (case grid_increments st shape_type params sheet_w sheet_h clearance of
       (Inl e, st') \<Rightarrow> Some (Inl e, st')
     | (Inr (vars, params', dx, dy), st') \<Rightarrow>
         sheets_loop
           \<lparr>f_shape_type = shape_type, f_vars = vars, f_params = params',
            f_dx = dx, f_dy = dy, f_num_shapes = num_shapes,
            f_sheet_w = sheet_w, f_sheet_h = sheet_h\<rparr>
           0 [] st')"


text \<open>What a caller reads from a placed shape: its type, the contents of its parameter
  dictionary in the store, and its centre.\<close>

definition view_shape :: "store \<Rightarrow> placed_shape \<Rightarrow> string \<times> params \<times> real \<times> real" where
  "view_shape st p = (ps_type p, st ! ps_params p, ps_x p, ps_y p)"

definition view_sheets :: "store \<Rightarrow> placed_shape list list \<Rightarrow> (string \<times> params \<times> real \<times> real) list list" where
  "view_sheets st sheets = map (map (view_shape st)) sheets"

section \<open>Area accounting, lines 256 to 283 and 335\<close>

definition calculate_shape_area :: "string \<Rightarrow> params \<Rightarrow> error + real" where
  "calculate_shape_area shape_type d =
    (if shape_type = ''circle'' then
       (case getitem d ''r'' of Inl e \<Rightarrow> Inl e | Inr r \<Rightarrow> Inr (pi * r * r))
     else if shape_type = ''square'' then
       (case getitem d ''L'' of Inl e \<Rightarrow> Inl e | Inr L \<Rightarrow> Inr (L * L))
     else if shape_type = ''rectangle'' then
       (case getitem d ''l'' of Inl e \<Rightarrow> Inl e | Inr l \<Rightarrow>
       (case getitem d ''w'' of Inl e \<Rightarrow> Inl e | Inr w \<Rightarrow> Inr (l * w)))
     else if shape_type = ''triangle'' then
       (case getitem d ''a'' of Inl e \<Rightarrow> Inl e | Inr a \<Rightarrow>
          let h = a * sqrt 3 / 2 in Inr ((a * h) / 2))
     else if shape_type = ''semi-circle'' then
       (case getitem d ''r'' of Inl e \<Rightarrow> Inl e | Inr r \<Rightarrow> Inr ((pi * r * r) / 2))
     else Inl (ValueError shape_type))"

definition calculate_unused_area :: "string \<Rightarrow> params \<Rightarrow> real \<Rightarrow> real \<Rightarrow> int \<Rightarrow> error + real" where
  "calculate_unused_area shape_type shape_params sheet_w sheet_h count =
    (let sheet_area = sheet_w * sheet_h
     in case calculate_shape_area shape_type shape_params of
          Inl e \<Rightarrow> Inl e
        | Inr shape_area \<Rightarrow>
            let total_shape_area = shape_area * real_of_int count
            in Inr (sheet_area - total_shape_area))"

text \<open>Line 335, \<^verbatim>\<open>int(sheet_area // shape_area)\<close>: floor division of floats raises on a
  zero divisor.\<close>

definition area_bound :: "string \<Rightarrow> params \<Rightarrow> real \<Rightarrow> real \<Rightarrow> error + int" where
  "area_bound shape_type shape_params sheet_w sheet_h =
    (let sheet_area = sheet_w * sheet_h
     in case calculate_shape_area shape_type shape_params of
          Inl e \<Rightarrow> Inl e
        | Inr shape_area \<Rightarrow>
            if shape_area = 0 then Inl ZeroDivisionError
            else Inr (py_int (real_of_int \<lfloor>sheet_area / shape_area\<rfloor>)))"

section \<open>Notions used to state and prove the properties\<close>

definition grid_point :: "frame \<Rightarrow> params \<Rightarrow> nat \<Rightarrow> nat \<Rightarrow> (real \<times> real) option" where
  "grid_point f d row col =
    (case row_y f d row of
       Inl e \<Rightarrow> None
     | Inr (y, limit) \<Rightarrow>
         if y > limit then None
         else (case col_x f d (x_offset_of f row) col of
                 Inl e \<Rightarrow> None
               | Inr (x, bound) \<Rightarrow> if x > bound then None else Some (x, y)))"

definition on_grid :: "frame \<Rightarrow> params \<Rightarrow> placed_shape \<Rightarrow> bool" where
  "on_grid f d p \<longleftrightarrow>
     ps_type p = f_shape_type f \<and> (\<exists>row col. grid_point f d row col = Some (ps_x p, ps_y p))"

definition appended ::
  "frame \<Rightarrow> store \<Rightarrow> store \<Rightarrow> nat \<Rightarrow> placed_shape list \<Rightarrow> bool" where
  "appended f st st' k new \<longleftrightarrow>
     st' = st @ replicate k (st ! f_params f) \<and>
     map ps_params new = [length st..<length st + k] \<and>
     (\<forall>p \<in> set new. on_grid f (st ! f_params f) p)"

definition extends ::
  "frame \<Rightarrow> int \<Rightarrow> placed_shape list \<Rightarrow> store \<Rightarrow>
   (error + int \<times> placed_shape list) \<times> store \<Rightarrow> bool" where
  "extends f placed sp st res \<longleftrightarrow>
     (\<exists>k new. appended f st (snd res) k new \<and>
        (0 < k \<longrightarrow> placed + int k \<le> f_num_shapes f) \<and>
        (\<forall>placed' sp'. fst res = Inr (placed', sp') \<longrightarrow>
           placed' = placed + int k \<and> sp' = sp @ new))"

definition sheets_extend ::
  "frame \<Rightarrow> int \<Rightarrow> placed_shape list list \<Rightarrow> store \<Rightarrow>
   (error + placed_shape list list) \<times> store \<Rightarrow> bool" where
  "sheets_extend f placed sheets st res \<longleftrightarrow>
     (\<exists>k new. appended f st (snd res) k (concat new) \<and> [] \<notin> set new \<and>
        (\<forall>sheets'. fst res = Inr sheets' \<longrightarrow>
           sheets' = sheets @ new \<and>
           (if placed < f_num_shapes f then placed + int k = f_num_shapes f else k = 0)))"

definition frame_of ::
  "string \<Rightarrow> shape_vars \<times> addr \<times> real \<times> real \<Rightarrow> int \<Rightarrow> real \<Rightarrow> real \<Rightarrow> frame" where
  "frame_of shape_type g num_shapes sheet_w sheet_h =
     (case g of (vars, params', dx, dy) \<Rightarrow>
       \<lparr>f_shape_type = shape_type, f_vars = vars, f_params = params',
        f_dx = dx, f_dy = dy, f_num_shapes = num_shapes,
        f_sheet_w = sheet_w, f_sheet_h = sheet_h\<rparr>)"

definition positive_at :: "params \<Rightarrow> string \<Rightarrow> bool" where
  "positive_at d k = (case d k of None \<Rightarrow> False | Some v \<Rightarrow> 0 < v)"

definition valid_params :: "string \<Rightarrow> params \<Rightarrow> bool" where
  "valid_params shape_type d =
    (if shape_type = ''circle'' then positive_at d ''r''
     else if shape_type = ''square'' then positive_at d ''L''
     else if shape_type = ''rectangle'' then positive_at d ''l'' \<and> positive_at d ''w''
     else if shape_type = ''triangle'' then positive_at d ''a''
     else if shape_type = ''semi-circle'' then positive_at d ''r''
     else False)"

text \<open>The locals bound by the dispatch agree with the dictionary \<open>d\<close> that \<^verbatim>\<open>params\<close>
  refers to, and the increments are positive.\<close>

definition frame_ok :: "frame \<Rightarrow> params \<Rightarrow> bool" where
  "frame_ok f d \<longleftrightarrow>
     valid_params (f_shape_type f) d \<and> 0 < f_dx f \<and> 0 < f_dy f \<and>
     (case f_vars f of
        CircleV r \<Rightarrow> f_shape_type f = ''circle'' \<and> d ''r'' = Some r
      | SquareV L \<Rightarrow> f_shape_type f = ''square'' \<and> d ''L'' = Some L
      | RectangleV \<Rightarrow> f_shape_type f = ''rectangle''
      | TriangleV a \<Rightarrow> f_shape_type f = ''triangle'' \<and> d ''a'' = Some a
      | SemiCircleV r \<Rightarrow> f_shape_type f = ''semi-circle'' \<and> d ''r'' = Some r)"

text \<open>The extents the loops of \<^verbatim>\<open>pack_shapes\<close> keep free around a centre: the half extent
  in \<open>x\<close>, the extent below the centre and the extent above it (the triangle is centred
  at its centroid, a third of its height above its base).\<close>

definition half_extents :: "string \<Rightarrow> params \<Rightarrow> (real \<times> real \<times> real) option" where
  "half_extents shape_type d =
    (if shape_type = ''circle'' then
       (case d ''r'' of None \<Rightarrow> None | Some r \<Rightarrow> Some (r, r, r))
     else if shape_type = ''square'' then
       (case d ''L'' of None \<Rightarrow> None | Some L \<Rightarrow> Some (L / 2, L / 2, L / 2))
     else if shape_type = ''rectangle'' then
       (case d ''l'' of None \<Rightarrow> None | Some l \<Rightarrow>
       (case d ''w'' of None \<Rightarrow> None | Some w \<Rightarrow> Some (l / 2, w / 2, w / 2)))
     else if shape_type = ''triangle'' then
       (case d ''a'' of None \<Rightarrow> None | Some a \<Rightarrow>
          let h = a * sqrt 3 / 2 in Some (a / 2, h / 3, 2 * h / 3))
     else if shape_type = ''semi-circle'' then
       (case d ''r'' of None \<Rightarrow> None | Some r \<Rightarrow> Some (r, r, r))
     else None)"

definition centre_within :: "real \<Rightarrow> real \<Rightarrow> string \<times> params \<times> real \<times> real \<Rightarrow> bool" where
  "centre_within sheet_w sheet_h v =
    (case v of (t, d, x, y) \<Rightarrow>
      (case half_extents t d of
         None \<Rightarrow> False
       | Some (hx, hy_lead, hy_trail) \<Rightarrow>
           hx \<le> x \<and> x \<le> sheet_w - hx \<and> hy_lead \<le> y \<and> y \<le> sheet_h - hy_trail))"

text \<open>The bounding box \<open>(x_min, x_max, y_min, y_max)\<close> of what \<^verbatim>\<open>visualize_sheets\<close> draws
  for a placed shape (lines 207 to 237).\<close>

definition footprint :: "string \<times> params \<times> real \<times> real \<Rightarrow> (real \<times> real \<times> real \<times> real) option" where
  "footprint v =
    (case v of (t, p, x, y) \<Rightarrow>
      if t = ''circle'' then
        (case p ''r'' of None \<Rightarrow> None | Some r \<Rightarrow> Some (x - r, x + r, y - r, y + r))
      else if t = ''square'' then
        (case p ''L'' of None \<Rightarrow> None
         | Some L \<Rightarrow> Some (x - L / 2, x - L / 2 + L, y - L / 2, y - L / 2 + L))
      else if t = ''rectangle'' then
        (case p ''l'' of None \<Rightarrow> None | Some l \<Rightarrow>
        (case p ''w'' of None \<Rightarrow> None
         | Some w \<Rightarrow> Some (x - l / 2, x - l / 2 + l, y - w / 2, y - w / 2 + w)))
      else if t = ''triangle'' then
        (case p ''a'' of None \<Rightarrow> None | Some a \<Rightarrow>
           let h = a * sqrt 3 / 2 in Some (x - a / 2, x + a / 2, y - h / 3, y + 2 * h / 3))
      else if t = ''semi-circle'' then
        (case p ''r'' of None \<Rightarrow> None | Some r \<Rightarrow> Some (x - r, x + r, y, y + r))
      else None)"

definition footprint_within :: "real \<Rightarrow> real \<Rightarrow> string \<times> params \<times> real \<times> real \<Rightarrow> bool" where
  "footprint_within sheet_w sheet_h v =
    (case footprint v of
       None \<Rightarrow> False
     | Some (x_min, x_max, y_min, y_max) \<Rightarrow>
         0 \<le> x_min \<and> x_max \<le> sheet_w \<and> 0 \<le> y_min \<and> y_max \<le> sheet_h)"


abbreviation circle_frame :: frame where
  "circle_frame \<equiv>
     \<lparr>f_shape_type = ''circle'', f_vars = CircleV (1 / 10), f_params = 0,
      f_dx = 1 / 5, f_dy = sqrt 3 / 10, f_num_shapes = 24,
      f_sheet_w = 1, f_sheet_h = 1\<rparr>"

text \<open>The circles of one row: consecutive addresses, the given centres \<open>x\<close>, one \<open>y\<close>.\<close>

fun circles_at :: "addr \<Rightarrow> real \<Rightarrow> real list \<Rightarrow> placed_shape list" where
  "circles_at a y [] = []"
| "circles_at a y (x # xs) =
     \<lparr>ps_type = ''circle'', ps_params = a, ps_x = x, ps_y = y\<rparr> # circles_at (Suc a) y xs"

text \<open>What two placed shapes share when they differ at most in the address of their
  parameter dictionary.\<close>

definition coords_of :: "placed_shape \<Rightarrow> string \<times> real \<times> real" where
  "coords_of p = (ps_type p, ps_x p, ps_y p)"

definition same_cols ::
  "(error + int \<times> placed_shape list) \<Rightarrow> (error + int \<times> placed_shape list) \<Rightarrow> bool" where
  "same_cols r r' =
    (case r of
       Inl e \<Rightarrow> r' = Inl e
     | Inr (p, sp) \<Rightarrow>
         (case r' of
            Inl e' \<Rightarrow> False
          | Inr (p', sp') \<Rightarrow> p = p' \<and> map coords_of sp = map coords_of sp'))"

definition same_sheets ::
  "(error + placed_shape list list) \<Rightarrow> (error + placed_shape list list) \<Rightarrow> bool" where
  "same_sheets r r' =
    (case r of
       Inl e \<Rightarrow> r' = Inl e
     | Inr sheets \<Rightarrow>
         (case r' of
            Inl e' \<Rightarrow> False
          | Inr sheets' \<Rightarrow> map (map coords_of) sheets = map (map coords_of) sheets'))"

text \<open>Two frames that differ at most in the address bound to \<^verbatim>\<open>params\<close>.\<close>

definition same_locals :: "frame \<Rightarrow> frame \<Rightarrow> bool" where
  "same_locals f f' \<longleftrightarrow> f' = f\<lparr>f_params := f_params f'\<rparr>"




section \<open>Evaluation on concrete requests\<close>

lemmas pack_eval =
  pack_shapes_def grid_increments_def getitem_def int_div_def overflow_bound_def py_int_def
  sheets_loop.simps row_loop.simps col_loop.simps row_y_def col_x_def x_offset_of_def Let_def

text \<open>
  Claim C1, the orientation of a rectangle.  A 3 by 2 rectangle on a sheet of width 2
  and height 6 fits only when it is turned, so the swapped orientation wins strictly
  and the stored sizes are swapped (length 2, width 3).  The claim asks for the pitch
  of the swapped orientation, \<open>dy = l + clearance = 3\<close>, that is rows centred at
  \<open>3/2\<close> and \<open>9/2\<close>.  Line 58 assigns \<^verbatim>\<open>dy1\<close>, the pitch of the first orientation: the
  rows are centred at \<open>3/2\<close> and \<open>7/2\<close>, two apart, and the two rectangles of height 3
  overlap.
\<close>

theorem rectangle_swap_keeps_first_dy:
  "pack_shapes [[''l'' \<mapsto> 3, ''w'' \<mapsto> 2]] ''rectangle'' 0 2 2 6 0 =
     Some (Inr [[\<lparr>ps_type = ''rectangle'', ps_params = 2, ps_x = 1, ps_y = 3 / 2\<rparr>,
                 \<lparr>ps_type = ''rectangle'', ps_params = 3, ps_x = 1, ps_y = 7 / 2\<rparr>]],
           [[''l'' \<mapsto> 3, ''w'' \<mapsto> 2], [''l'' \<mapsto> 2, ''w'' \<mapsto> 3],
            [''l'' \<mapsto> 2, ''w'' \<mapsto> 3], [''l'' \<mapsto> 2, ''w'' \<mapsto> 3]])"
  by (simp add: pack_eval)

text \<open>
  Claim C3, the area bound.  The same 3 by 2 rectangle on a sheet of width 2 and height
  9: the area bound is \<open>\<lfloor>18 / 6\<rfloor> = 3\<close>, and a request for four shapes puts four
  overlapping rectangles on the first sheet, rows being two apart (line 58).  The
  unused area of that sheet is \<open>18 - 6 * 4 = -6\<close>.
\<close>

theorem rectangle_count_exceeds_area_bound:
  "pack_shapes [[''l'' \<mapsto> 3, ''w'' \<mapsto> 2]] ''rectangle'' 0 4 2 9 0 =
     Some (Inr [[\<lparr>ps_type = ''rectangle'', ps_params = 2, ps_x = 1, ps_y = 3 / 2\<rparr>,
                 \<lparr>ps_type = ''rectangle'', ps_params = 3, ps_x = 1, ps_y = 7 / 2\<rparr>,
                 \<lparr>ps_type = ''rectangle'', ps_params = 4, ps_x = 1, ps_y = 11 / 2\<rparr>,
                 \<lparr>ps_type = ''rectangle'', ps_params = 5, ps_x = 1, ps_y = 15 / 2\<rparr>]],
           [[''l'' \<mapsto> 3, ''w'' \<mapsto> 2], [''l'' \<mapsto> 2, ''w'' \<mapsto> 3],
            [''l'' \<mapsto> 2, ''w'' \<mapsto> 3], [''l'' \<mapsto> 2, ''w'' \<mapsto> 3],
            [''l'' \<mapsto> 2, ''w'' \<mapsto> 3], [''l'' \<mapsto> 2, ''w'' \<mapsto> 3]])
   \<and> area_bound ''rectangle'' [''l'' \<mapsto> 3, ''w'' \<mapsto> 2] 2 9 = Inr 3
   \<and> calculate_unused_area ''rectangle'' [''l'' \<mapsto> 3, ''w'' \<mapsto> 2] 2 9 4 = Inr (- 6)"
  by (simp add: pack_eval area_bound_def calculate_unused_area_def calculate_shape_area_def)




section \<open>Invariants of the loops\<close>

lemma appended_Nil: "appended f st st 0 []"
  by (simp add: appended_def)

lemma appended_length: "appended f st st' k new \<Longrightarrow> length new = k"
proof -
  assume "appended f st st' k new"
  then have "map ps_params new = [length st..<length st + k]" by (simp add: appended_def)
  then have "length (map ps_params new) = length [length st..<length st + k]" by simp
  then show ?thesis by simp
qed

lemma appended_params:
  assumes "f_params f < length st" "appended f st st' k new"
  shows "f_params f < length st'" "st' ! f_params f = st ! f_params f"
  using assms by (simp_all add: appended_def nth_append)

lemma appended_trans:
  assumes "f_params f < length st" "appended f st st1 k1 new1" "appended f st1 st2 k2 new2"
  shows "appended f st st2 (k1 + k2) (new1 @ new2)"
proof -
  let ?d = "st ! f_params f"
  have st1: "st1 = st @ replicate k1 ?d" using assms(2) by (simp add: appended_def)
  have d1: "st1 ! f_params f = ?d" using assms(1) st1 by (simp add: nth_append)
  have len1: "length st1 = length st + k1" using st1 by simp
  have st2: "st2 = st1 @ replicate k2 ?d" using assms(3) d1 by (simp add: appended_def)
  have a: "st2 = st @ replicate (k1 + k2) ?d"
    unfolding st2 st1 by (simp add: replicate_add)
  have m1: "map ps_params new1 = [length st..<length st + k1]"
    using assms(2) by (simp add: appended_def)
  have m2: "map ps_params new2 = [length st + k1..<length st + k1 + k2]"
    using assms(3) len1 by (simp add: appended_def)
  have "[length st..<length st + k1 + k2] = [length st..<length st + k1] @ [length st + k1..<length st + k1 + k2]"
    by (rule upt_add_eq_append) simp
  then have b: "map ps_params (new1 @ new2) = [length st..<length st + (k1 + k2)]"
    using m1 m2 by (simp add: add.assoc)
  have c: "\<forall>p \<in> set (new1 @ new2). on_grid f ?d p"
    using assms(2,3) d1 by (auto simp: appended_def)
  show ?thesis unfolding appended_def using a b c by blast
qed

lemma col_loop_stop:
  assumes "col_x f (st ! f_params f) xo col = Inr (x, b)" "x > b \<or> \<not> placed < f_num_shapes f"
  shows "col_loop f xo y col placed sp st = (Inr (placed, sp), st)"
  using assms by (subst col_loop.simps) auto

lemma col_loop_error:
  assumes "col_x f (st ! f_params f) xo col = Inl e"
  shows "col_loop f xo y col placed sp st = (Inl e, st)"
  using assms by (subst col_loop.simps) simp

lemma col_loop_step:
  assumes "col_x f (st ! f_params f) xo col = Inr (x, b)" "\<not> x > b" "placed < f_num_shapes f"
  shows "col_loop f xo y col placed sp st =
         col_loop f xo y (col + 1) (placed + 1)
           (sp @ [\<lparr>ps_type = f_shape_type f, ps_params = length st, ps_x = x, ps_y = y\<rparr>])
           (st @ [st ! f_params f])"
  using assms by (subst col_loop.simps) simp

lemma col_loop_appended:
  assumes "f_params f < length st"
    and "row_y f (st ! f_params f) row = Inr (y, limit)" "\<not> y > limit"
    and "xo = x_offset_of f row"
    and "col_loop f xo y col placed sp st = (r, st')"
  shows "\<exists>k new. appended f st st' k new \<and>
           (0 < k \<longrightarrow> placed + int k \<le> f_num_shapes f) \<and>
           (\<forall>placed' sp'. r = Inr (placed', sp') \<longrightarrow> placed' = placed + int k \<and> sp' = sp @ new)"
  using assms
proof (induction f xo y col placed sp st arbitrary: r st' rule: col_loop.induct)
  case (1 f xo y col placed sp st)
  let ?d = "st ! f_params f"
  let ?G = "\<lambda>k new. appended f st st' k new \<and>
           (0 < k \<longrightarrow> placed + int k \<le> f_num_shapes f) \<and>
           (\<forall>placed' sp'. r = Inr (placed', sp') \<longrightarrow> placed' = placed + int k \<and> sp' = sp @ new)"
  show ?case
  proof (cases "col_x f ?d xo col")
    case (Inl e)
    from col_loop_error[OF Inl] "1.prems"(5) have "st' = st" "r = Inl e" by simp_all
    then have "?G 0 []" by (simp add: appended_Nil)
    then show ?thesis by blast
  next
    case (Inr xb)
    obtain x b where xb: "xb = (x, b)" by (cases xb)
    note cx = Inr[unfolded xb]
    show ?thesis
    proof (cases "x > b \<or> \<not> placed < f_num_shapes f")
      case True
      from col_loop_stop[OF cx True] "1.prems"(5) have "st' = st" "r = Inr (placed, sp)"
        by simp_all
      then have "?G 0 []" by (simp add: appended_Nil)
      then show ?thesis by blast
    next
      case False
      then have nx: "\<not> x > b" and lt: "placed < f_num_shapes f" by simp_all
      let ?p = "\<lparr>ps_type = f_shape_type f, ps_params = length st, ps_x = x, ps_y = y\<rparr>"
      from col_loop_step[OF cx nx lt] "1.prems"(5)
      have rec: "col_loop f xo y (col + 1) (placed + 1) (sp @ [?p]) (st @ [?d]) = (r, st')"
        by simp
      have "grid_point f ?d row col = Some (x, y)"
        using "1.prems"(2,3,4) cx nx by (simp add: grid_point_def)
      then have "on_grid f ?d ?p" unfolding on_grid_def by auto
      then have one: "appended f st (st @ [?d]) 1 [?p]"
        by (simp add: appended_def)
      note p1 = appended_params[OF "1.prems"(1) one]
      have ry: "row_y f ((st @ [?d]) ! f_params f) row = Inr (y, limit)"
        using p1(2) "1.prems"(2) by simp
      from "1.IH"[OF Inr xb[symmetric] nx lt p1(1) ry "1.prems"(3,4) rec]
      obtain k new where k: "appended f (st @ [?d]) st' k new"
        and le: "0 < k \<longrightarrow> placed + 1 + int k \<le> f_num_shapes f"
        and res: "\<forall>placed' sp'. r = Inr (placed', sp') \<longrightarrow>
              placed' = placed + 1 + int k \<and> sp' = (sp @ [?p]) @ new"
        by blast
      have a: "appended f st st' (1 + k) ([?p] @ new)"
        by (rule appended_trans[OF "1.prems"(1) one k])
      have b: "placed + int (1 + k) \<le> f_num_shapes f"
        using le lt by (cases "0 < k") simp_all
      have c: "\<forall>placed' sp'. r = Inr (placed', sp') \<longrightarrow>
              placed' = placed + int (1 + k) \<and> sp' = sp @ ([?p] @ new)"
        using res by auto
      from a b c have G: "?G (1 + k) ([?p] @ new)" by blast
      show ?thesis
        by (rule exI[of _ "1 + k"], rule exI[of _ "[?p] @ new"]) (rule G)
    qed
  qed
qed

lemma extends_same: "extends f placed sp st (Inr (placed, sp), st)"
  unfolding extends_def
  by (rule exI[of _ 0], rule exI[of _ "[]"]) (simp add: appended_Nil)

lemma extends_error: "extends f placed sp st (Inl e, st)"
  unfolding extends_def
  by (rule exI[of _ 0], rule exI[of _ "[]"]) (simp add: appended_Nil)

lemma extends_col_loop:
  assumes "f_params f < length st"
    and "row_y f (st ! f_params f) row = Inr (y, limit)" "\<not> y > limit"
  shows "extends f placed sp st (col_loop f (x_offset_of f row) y col placed sp st)"
proof -
  obtain r st' where c: "col_loop f (x_offset_of f row) y col placed sp st = (r, st')"
    by (cases "col_loop f (x_offset_of f row) y col placed sp st")
  from col_loop_appended[OF assms refl c] show ?thesis
    unfolding extends_def c by simp
qed

lemma extends_params:
  assumes "f_params f < length st" "extends f placed sp st (r, st')"
  shows "f_params f < length st'" "st' ! f_params f = st ! f_params f"
  using assms appended_params unfolding extends_def by auto

lemma extends_trans:
  assumes "f_params f < length st"
    and "extends f placed sp st (Inr (placed1, sp1), st1)"
    and "extends f placed1 sp1 st1 res"
  shows "extends f placed sp st res"
proof -
  from assms(2) obtain k1 new1 where a1: "appended f st st1 k1 new1"
    and b1: "0 < k1 \<longrightarrow> placed + int k1 \<le> f_num_shapes f"
    and c1: "placed1 = placed + int k1" "sp1 = sp @ new1"
    unfolding extends_def by auto
  from assms(3) obtain k2 new2 where a2: "appended f st1 (snd res) k2 new2"
    and b2: "0 < k2 \<longrightarrow> placed1 + int k2 \<le> f_num_shapes f"
    and c2: "\<forall>placed' sp'. fst res = Inr (placed', sp') \<longrightarrow>
           placed' = placed1 + int k2 \<and> sp' = sp1 @ new2"
    unfolding extends_def by blast
  have a: "appended f st (snd res) (k1 + k2) (new1 @ new2)"
    by (rule appended_trans[OF assms(1) a1 a2])
  have b: "0 < k1 + k2 \<longrightarrow> placed + int (k1 + k2) \<le> f_num_shapes f"
    using b1 b2 c1(1) by (cases "0 < k2") auto
  have c: "\<forall>placed' sp'. fst res = Inr (placed', sp') \<longrightarrow>
           placed' = placed + int (k1 + k2) \<and> sp' = sp @ (new1 @ new2)"
    using c1 c2 by auto
  show ?thesis unfolding extends_def
    by (rule exI[of _ "k1 + k2"], rule exI[of _ "new1 @ new2"]) (use a b c in blast)
qed

lemma row_loop_extends_aux:
  assumes run: "row_loop f0 row0 placed0 sp0 st0 = Some res0"
  shows "f_params f0 < length st0 \<longrightarrow> extends f0 placed0 sp0 st0 res0"
proof (rule row_loop.raw_induct
    [where P = "\<lambda>f row placed sp st res. f_params f < length st \<longrightarrow> extends f placed sp st res",
     OF _ run])
  fix rl :: "frame \<Rightarrow> nat \<Rightarrow> int \<Rightarrow> placed_shape list \<Rightarrow> store \<Rightarrow>
             ((error + int \<times> placed_shape list) \<times> store) option"
    and f row placed sp st res
  assume IH: "\<And>f row placed sp st res. rl f row placed sp st = Some res \<Longrightarrow>
                f_params f < length st \<longrightarrow> extends f placed sp st res"
  assume body: "(case row_y f (st ! f_params f) row of
       Inl e \<Rightarrow> Some (Inl e, st)
     | Inr (y, limit) \<Rightarrow>
         if y > limit then Some (Inr (placed, sp), st)
         else
           (case col_loop f (x_offset_of f row) y 0 placed sp st of
              (Inl e, st') \<Rightarrow> Some (Inl e, st')
            | (Inr (placed', sp'), st') \<Rightarrow>
                if placed' \<ge> f_num_shapes f
                then Some (Inr (placed', sp'), st')
                else rl f (row + 1) placed' sp' st')) = Some res"
  let ?d = "st ! f_params f"
  show "f_params f < length st \<longrightarrow> extends f placed sp st res"
  proof
    assume len: "f_params f < length st"
    show "extends f placed sp st res"
    proof (cases "row_y f ?d row")
      case (Inl e)
      with body have "res = (Inl e, st)" by simp
      then show ?thesis by (simp add: extends_error)
    next
      case (Inr yl)
      obtain y limit where yl: "yl = (y, limit)" by (cases yl)
      note ry = Inr[unfolded yl]
      show ?thesis
      proof (cases "y > limit")
        case True
        with body ry have "res = (Inr (placed, sp), st)" by simp
        then show ?thesis by (simp add: extends_same)
      next
        case False
        obtain r1 st1 where c: "col_loop f (x_offset_of f row) y 0 placed sp st = (r1, st1)"
          by (cases "col_loop f (x_offset_of f row) y 0 placed sp st")
        have e1: "extends f placed sp st (r1, st1)"
          using extends_col_loop[OF len ry False, of placed sp 0] c by simp
        show ?thesis
        proof (cases r1)
          case (Inl e)
          with body ry False c have "res = (r1, st1)" by simp
          with e1 show ?thesis by simp
        next
          case (Inr ps)
          obtain p1 sp1 where ps: "ps = (p1, sp1)" by (cases ps)
          note r1 = Inr[unfolded ps]
          show ?thesis
          proof (cases "f_num_shapes f \<le> p1")
            case True
            with body ry False c r1 have "res = (r1, st1)" by simp
            with e1 show ?thesis by simp
          next
            case nle: False
            with body ry False c r1 have "rl f (row + 1) p1 sp1 st1 = Some res" by simp
            from IH[OF this] extends_params(1)[OF len e1]
            have "extends f p1 sp1 st1 res" by simp
            from extends_trans[OF len e1[unfolded r1] this] show ?thesis .
          qed
        qed
      qed
    qed
  qed
qed

lemma row_loop_extends:
  assumes "row_loop f row placed sp st = Some res" "f_params f < length st"
  shows "extends f placed sp st res"
  using row_loop_extends_aux[OF assms(1)] assms(2) by simp

lemma sheets_extendI:
  assumes "appended f st st' k (concat new)" "[] \<notin> set new"
    and "\<And>sheets'. r = Inr sheets' \<Longrightarrow> sheets' = sheets @ new \<and>
           (if placed < f_num_shapes f then placed + int k = f_num_shapes f else k = 0)"
  shows "sheets_extend f placed sheets st (r, st')"
  unfolding sheets_extend_def
  by (rule exI[of _ k], rule exI[of _ new]) (use assms in auto)

lemma sheets_loop_extend_aux:
  assumes run: "sheets_loop f0 placed0 sheets0 st0 = Some res0"
  shows "f_params f0 < length st0 \<longrightarrow> sheets_extend f0 placed0 sheets0 st0 res0"
proof (rule sheets_loop.raw_induct
    [where P = "\<lambda>f placed sheets st res.
        f_params f < length st \<longrightarrow> sheets_extend f placed sheets st res",
     OF _ run])
  fix sl :: "frame \<Rightarrow> int \<Rightarrow> placed_shape list list \<Rightarrow> store \<Rightarrow>
             ((error + placed_shape list list) \<times> store) option"
    and f placed sheets st res
  assume IH: "\<And>f placed sheets st res. sl f placed sheets st = Some res \<Longrightarrow>
                f_params f < length st \<longrightarrow> sheets_extend f placed sheets st res"
  assume body: "(if placed < f_num_shapes f then
       (case row_loop f 0 placed [] st of
          None \<Rightarrow> None
        | Some (Inl e, st') \<Rightarrow> Some (Inl e, st')
        | Some (Inr (placed', sheet_positions), st') \<Rightarrow>
            if sheet_positions = [] then Some (Inl (RuntimeError (f_shape_type f)), st')
            else if placed' \<ge> f_num_shapes f
            then Some (Inr (sheets @ [sheet_positions]), st')
            else sl f placed' (sheets @ [sheet_positions]) st')
     else Some (Inr sheets, st)) = Some res"
  show "f_params f < length st \<longrightarrow> sheets_extend f placed sheets st res"
  proof
    assume len: "f_params f < length st"
    show "sheets_extend f placed sheets st res"
    proof (cases "placed < f_num_shapes f")
      case False
      with body have res: "res = (Inr sheets, st)" by simp
      show ?thesis unfolding res
        by (rule sheets_extendI[where k = 0 and new = "[]"]) (use False in \<open>simp_all add: appended_Nil\<close>)
    next
      case lt: True
      from body lt obtain r1 st1 where rl: "row_loop f 0 placed [] st = Some (r1, st1)"
        by (cases "row_loop f 0 placed [] st") auto
      from row_loop_extends[OF rl len]
      obtain k1 new1 where a1: "appended f st st1 k1 new1"
        and b1: "0 < k1 \<longrightarrow> placed + int k1 \<le> f_num_shapes f"
        and c1: "\<forall>placed' sp'. r1 = Inr (placed', sp') \<longrightarrow>
                   placed' = placed + int k1 \<and> sp' = new1"
        unfolding extends_def by auto
      note l1 = appended_length[OF a1]
      show ?thesis
      proof (cases r1)
        case (Inl e)
        with body lt rl have res: "res = (Inl e, st1)" by simp
        show ?thesis unfolding res
          by (rule sheets_extendI[where k = k1 and new = "if new1 = [] then [] else [new1]"])
             (use a1 in auto)
      next
        case (Inr ps)
        obtain p1 sp1 where ps: "ps = (p1, sp1)" by (cases ps)
        note r1 = Inr[unfolded ps]
        from c1 r1 have p1: "p1 = placed + int k1" and sp1: "sp1 = new1" by simp_all
        show ?thesis
        proof (cases "sp1 = []")
          case True
          with body lt rl r1 have res: "res = (Inl (RuntimeError (f_shape_type f)), st1)"
            by simp
          show ?thesis unfolding res
            by (rule sheets_extendI[where k = k1 and new = "[]"])
               (use a1 True sp1 in simp_all)
        next
          case ne: False
          then have kpos: "0 < k1" using l1 sp1 by auto
          show ?thesis
          proof (cases "f_num_shapes f \<le> p1")
            case True
            with body lt rl r1 ne have res: "res = (Inr (sheets @ [sp1]), st1)" by simp
            have eq: "placed + int k1 = f_num_shapes f" using True p1 b1 kpos by simp
            show ?thesis unfolding res
              by (rule sheets_extendI[where k = k1 and new = "[sp1]"])
                 (use a1 sp1 ne lt eq in simp_all)
          next
            case False
            with body lt rl r1 ne have rec: "sl f p1 (sheets @ [sp1]) st1 = Some res" by simp
            note pp = appended_params[OF len a1]
            from IH[OF rec] pp(1) have "sheets_extend f p1 (sheets @ [sp1]) st1 res" by simp
            then obtain k2 new2 where a2: "appended f st1 (snd res) k2 (concat new2)"
              and n2: "[] \<notin> set new2"
              and c2: "\<forall>sheets'. fst res = Inr sheets' \<longrightarrow>
                 sheets' = (sheets @ [sp1]) @ new2 \<and>
                 (if p1 < f_num_shapes f then p1 + int k2 = f_num_shapes f else k2 = 0)"
              unfolding sheets_extend_def by blast
            have a: "appended f st (snd res) (k1 + k2) (concat (sp1 # new2))"
              using appended_trans[OF len a1 a2] sp1 by simp
            have n: "[] \<notin> set (sp1 # new2)" using n2 ne by auto
            have c: "\<And>sheets'. fst res = Inr sheets' \<Longrightarrow> sheets' = sheets @ (sp1 # new2) \<and>
               (if placed < f_num_shapes f then placed + int (k1 + k2) = f_num_shapes f
                else k1 + k2 = 0)"
              using c2 False p1 lt by auto
            obtain r st' where rs: "res = (r, st')" by (cases res)
            show ?thesis unfolding rs
              by (rule sheets_extendI[where k = "k1 + k2" and new = "sp1 # new2"])
                 (use a n c rs in simp_all)
          qed
        qed
      qed
    qed
  qed
qed

lemma sheets_loop_extend:
  assumes "sheets_loop f placed sheets st = Some res" "f_params f < length st"
  shows "sheets_extend f placed sheets st res"
  using sheets_loop_extend_aux[OF assms(1)] assms(2) by simp

lemma pack_shapes_frame_of:
  "pack_shapes st shape_type params num_shapes sheet_w sheet_h clearance =
    (case grid_increments st shape_type params sheet_w sheet_h clearance of
       (Inl e, st') \<Rightarrow> Some (Inl e, st')
     | (Inr g, st') \<Rightarrow> sheets_loop (frame_of shape_type g num_shapes sheet_w sheet_h) 0 [] st')"
  by (simp add: pack_shapes_def frame_of_def split: prod.splits sum.splits)

text \<open>The dispatch allocates at most one dictionary, the swapped rectangle.\<close>

lemma grid_increments_store:
  assumes "grid_increments st shape_type params sheet_w sheet_h clearance = (r, st0)"
  shows "st0 = st \<or>
         (shape_type = ''rectangle'' \<and>
          (\<exists>l w vars dx dy. st0 = st @ [[''l'' \<mapsto> w, ''w'' \<mapsto> l]] \<and>
             (st ! params) ''l'' = Some l \<and> (st ! params) ''w'' = Some w \<and>
             r = Inr (vars, length st, dx, dy)))"
  using assms
  by (auto simp: grid_increments_def Let_def getitem_def split: if_splits sum.splits option.splits)

lemma grid_increments_params:
  assumes "grid_increments st shape_type params sheet_w sheet_h clearance = (Inr (vars, a', dx, dy), st0)"
    and "params < length st"
  shows "a' < length st0 \<and> (st0 = st \<longrightarrow> a' = params)"
  using assms
  by (auto simp: grid_increments_def Let_def getitem_def split: if_splits sum.splits option.splits)

lemma pack_shapes_extend:
  assumes run: "pack_shapes st shape_type params num_shapes sheet_w sheet_h clearance = Some (res, st')"
    and len: "params < length st"
  obtains e st0 where "grid_increments st shape_type params sheet_w sheet_h clearance = (Inl e, st0)"
      "res = Inl e" "st' = st0"
  | g st0 where "grid_increments st shape_type params sheet_w sheet_h clearance = (Inr g, st0)"
      "f_params (frame_of shape_type g num_shapes sheet_w sheet_h) < length st0"
      "sheets_extend (frame_of shape_type g num_shapes sheet_w sheet_h) 0 [] st0 (res, st')"
proof -
  obtain r0 st0 where gi: "grid_increments st shape_type params sheet_w sheet_h clearance = (r0, st0)"
    by (cases "grid_increments st shape_type params sheet_w sheet_h clearance")
  show thesis
  proof (cases r0)
    case (Inl e)
    with run gi have "res = Inl e" "st' = st0" by (simp_all add: pack_shapes_frame_of)
    with gi Inl that(1) show thesis by simp
  next
    case (Inr g)
    let ?F = "frame_of shape_type g num_shapes sheet_w sheet_h"
    obtain vars a' dx dy where g: "g = (vars, a', dx, dy)" by (cases g)
    from run gi Inr have sl: "sheets_loop ?F 0 [] st0 = Some (res, st')"
      by (simp add: pack_shapes_frame_of)
    from grid_increments_params[OF gi[unfolded Inr g] len]
    have l0: "f_params ?F < length st0" by (simp add: frame_of_def g)
    from sheets_loop_extend[OF sl l0] gi Inr l0 that(2) show thesis by simp
  qed
qed

text \<open>
  Claim C10.  A call of \<^verbatim>\<open>pack_shapes\<close> that returns leaves every dictionary that existed
  before the call as it was, the caller's \<^verbatim>\<open>params\<close> included: the store after the call
  is the store before it followed by new dictionaries.  The swap of a rectangle binds
  a new dictionary.  The \<^verbatim>\<open>params\<close> of the placed shapes are pairwise distinct
  dictionaries allocated during the call, none of them the caller's, and each holds
  the caller's parameters (with \<^verbatim>\<open>l\<close> and \<^verbatim>\<open>w\<close> exchanged when the rectangle was
  swapped).
\<close>

theorem pack_shapes_fresh_copies:
  assumes len: "params < length st"
    and run: "pack_shapes st shape_type params num_shapes sheet_w sheet_h clearance = Some (res, st')"
  shows "take (length st) st' = st \<and> st' ! params = st ! params \<and>
    (\<forall>sheets. res = Inr sheets \<longrightarrow>
       distinct (concat (map (map ps_params) sheets)) \<and>
       (\<forall>a \<in> set (concat (map (map ps_params) sheets)).
          length st \<le> a \<and> a < length st' \<and> a \<noteq> params \<and>
          (st' ! a = st ! params \<or>
           shape_type = ''rectangle'' \<and> (st' ! a) ''l'' = (st ! params) ''w'' \<and>
             (st' ! a) ''w'' = (st ! params) ''l'')))"
proof -
  from run len show ?thesis
  proof (cases rule: pack_shapes_extend)
    case (1 e st0)
    from grid_increments_store[OF 1(1)] 1(2,3) len show ?thesis
      by (auto simp: nth_append)
  next
    case (2 g st0)
    let ?F = "frame_of shape_type g num_shapes sheet_w sheet_h"
    let ?d = "st0 ! f_params ?F"
    from 2(3) obtain k new where ap: "appended ?F st0 st' k (concat new)"
      and rs: "\<forall>sheets'. res = Inr sheets' \<longrightarrow> sheets' = new"
      unfolding sheets_extend_def by auto
    have st': "st' = st0 @ replicate k ?d" using ap by (simp add: appended_def)
    have addrs: "map ps_params (concat new) = [length st0..<length st0 + k]"
      using ap by (simp add: appended_def)
    obtain vars a' dx dy where g: "g = (vars, a', dx, dy)" by (cases g)
    have fp: "f_params ?F = a'" by (simp add: frame_of_def g)
    from grid_increments_store[OF 2(1)]
    have pre: "take (length st) st0 = st \<and> length st \<le> length st0 \<and> st0 ! params = st ! params"
      using len by (auto simp: nth_append)
    have d: "?d = st ! params \<or>
           shape_type = ''rectangle'' \<and> ?d ''l'' = (st ! params) ''w'' \<and>
             ?d ''w'' = (st ! params) ''l''"
      using grid_increments_store[OF 2(1)] grid_increments_params[OF 2(1)[unfolded g] len] fp
      by (auto simp: g)
    have t: "take (length st) st' = st" using pre st' by simp
    have p: "st' ! params = st ! params" using pre st' len by (simp add: nth_append)
    have c: "concat (map (map ps_params) new) = [length st0..<length st0 + k]"
      using addrs by (simp add: map_concat)
    have a: "\<forall>a \<in> set [length st0..<length st0 + k].
          length st \<le> a \<and> a < length st' \<and> a \<noteq> params \<and> st' ! a = ?d"
      using pre st' len by (auto simp: nth_append)
    have b: "\<forall>a \<in> set [length st0..<length st0 + k].
          length st \<le> a \<and> a < length st' \<and> a \<noteq> params \<and>
          (st' ! a = st ! params \<or>
           shape_type = ''rectangle'' \<and> (st' ! a) ''l'' = (st ! params) ''w'' \<and>
             (st' ! a) ''w'' = (st ! params) ''l'')"
    proof
      fix a assume "a \<in> set [length st0..<length st0 + k]"
      with a have "length st \<le> a \<and> a < length st' \<and> a \<noteq> params \<and> st' ! a = ?d"
        by blast
      with d show "length st \<le> a \<and> a < length st' \<and> a \<noteq> params \<and>
          (st' ! a = st ! params \<or>
           shape_type = ''rectangle'' \<and> (st' ! a) ''l'' = (st ! params) ''w'' \<and>
             (st' ! a) ''w'' = (st ! params) ''l'')"
        by simp
    qed
    show ?thesis
    proof (intro conjI allI impI)
      show "take (length st) st' = st" by (rule t)
      show "st' ! params = st ! params" by (rule p)
    next
      fix sheets assume "res = Inr sheets"
      with rs have sh: "sheets = new" by simp
      show "distinct (concat (map (map ps_params) sheets))"
        unfolding sh c by simp
      show "\<forall>a \<in> set (concat (map (map ps_params) sheets)).
          length st \<le> a \<and> a < length st' \<and> a \<noteq> params \<and>
          (st' ! a = st ! params \<or>
           shape_type = ''rectangle'' \<and> (st' ! a) ''l'' = (st ! params) ''w'' \<and>
             (st' ! a) ''w'' = (st ! params) ''l'')"
        unfolding sh c by (rule b)
    qed
  qed
qed

lemma sqrt3_pos: "0 < sqrt 3" by simp

lemma positive_atD: "positive_at d k \<Longrightarrow> \<exists>v. d k = Some v \<and> 0 < v"
  by (auto simp: positive_at_def split: option.splits)

lemma grid_increments_valid:
  assumes v: "valid_params shape_type (st ! params)" and c: "0 \<le> clearance"
    and len: "params < length st"
  obtains (frame) g st0 where
    "grid_increments st shape_type params sheet_w sheet_h clearance = (Inr g, st0)"
    "f_params (frame_of shape_type g num_shapes sheet_w sheet_h) < length st0"
    "frame_ok (frame_of shape_type g num_shapes sheet_w sheet_h)
       (st0 ! f_params (frame_of shape_type g num_shapes sheet_w sheet_h))"
  | (overflow)
    "grid_increments st shape_type params sheet_w sheet_h clearance = (Inl OverflowError, st)"
proof -
  let ?d = "st ! params"
  consider (circle) "shape_type = ''circle''" | (square) "shape_type = ''square''"
    | (rectangle) "shape_type = ''rectangle''" | (triangle) "shape_type = ''triangle''"
    | (semi) "shape_type = ''semi-circle''"
    using v by (auto simp: valid_params_def split: if_splits)
  then show thesis
  proof cases
    case circle
    from v circle obtain r where r: "?d ''r'' = Some r" "0 < r"
      by (auto simp: valid_params_def dest: positive_atD)
    let ?g = "(CircleV r, params, 2 * r + clearance, (2 * r + clearance) * sqrt 3 / 2)"
    have "grid_increments st shape_type params sheet_w sheet_h clearance = (Inr ?g, st)"
      using circle r by (simp add: grid_increments_def getitem_def Let_def)
    moreover have "frame_ok (frame_of shape_type ?g num_shapes sheet_w sheet_h) ?d"
      using circle r c v by (simp add: frame_ok_def frame_of_def)
    ultimately show ?thesis using that(1)[of ?g st] len by (simp add: frame_of_def)
  next
    case square
    from v square obtain L where L: "?d ''L'' = Some L" "0 < L"
      by (auto simp: valid_params_def dest: positive_atD)
    let ?g = "(SquareV L, params, L + clearance, L + clearance)"
    have "grid_increments st shape_type params sheet_w sheet_h clearance = (Inr ?g, st)"
      using square L by (simp add: grid_increments_def getitem_def Let_def)
    moreover have "frame_ok (frame_of shape_type ?g num_shapes sheet_w sheet_h) ?d"
      using square L c v by (simp add: frame_ok_def frame_of_def)
    ultimately show ?thesis using that(1)[of ?g st] len by (simp add: frame_of_def)
  next
    case triangle
    from v triangle obtain a where a: "?d ''a'' = Some a" "0 < a"
      by (auto simp: valid_params_def dest: positive_atD)
    let ?g = "(TriangleV a, params, a + clearance, a * sqrt 3 / 2 + clearance)"
    have "grid_increments st shape_type params sheet_w sheet_h clearance = (Inr ?g, st)"
      using triangle a by (simp add: grid_increments_def getitem_def Let_def)
    moreover have "0 < a * sqrt 3 / 2 + clearance"
      using a c by (simp add: add_pos_nonneg)
    then have "frame_ok (frame_of shape_type ?g num_shapes sheet_w sheet_h) ?d"
      using triangle a c v by (simp add: frame_ok_def frame_of_def)
    ultimately show ?thesis using that(1)[of ?g st] len by (simp add: frame_of_def)
  next
    case semi
    from v semi obtain r where r: "?d ''r'' = Some r" "0 < r"
      by (auto simp: valid_params_def dest: positive_atD)
    let ?g = "(SemiCircleV r, params, 2 * r + clearance, r + clearance)"
    have "grid_increments st shape_type params sheet_w sheet_h clearance = (Inr ?g, st)"
      using semi r by (simp add: grid_increments_def getitem_def Let_def)
    moreover have "frame_ok (frame_of shape_type ?g num_shapes sheet_w sheet_h) ?d"
      using semi r c v by (simp add: frame_ok_def frame_of_def)
    ultimately show ?thesis using that(1)[of ?g st] len by (simp add: frame_of_def)
  next
    case rectangle
    from v rectangle have "positive_at ?d ''l''" "positive_at ?d ''w''"
      by (simp_all add: valid_params_def)
    from positive_atD[OF this(1)] positive_atD[OF this(2)]
    obtain l w where l: "?d ''l'' = Some l" "0 < l" and w: "?d ''w'' = Some w" "0 < w"
      by blast
    have nz: "w + clearance \<noteq> 0" "l + clearance \<noteq> 0" using l w c by simp_all
    let ?keep = "py_int (sheet_h / (w + clearance)) * py_int (sheet_w / (l + clearance))
                 \<ge> py_int (sheet_h / (l + clearance)) * py_int (sheet_w / (w + clearance))"
    let ?ov = "overflow_bound \<le> \<bar>sheet_h / (w + clearance)\<bar> \<or>
               overflow_bound \<le> \<bar>sheet_w / (l + clearance)\<bar> \<or>
               overflow_bound \<le> \<bar>sheet_h / (l + clearance)\<bar> \<or>
               overflow_bound \<le> \<bar>sheet_w / (w + clearance)\<bar>"
    show ?thesis
    proof (cases ?ov)
      case True
      with rectangle l w nz
      have "grid_increments st shape_type params sheet_w sheet_h clearance = (Inl OverflowError, st)"
        by (auto simp: grid_increments_def getitem_def Let_def int_div_def)
      then show ?thesis by (rule that(2))
    next
      case no: False
    show ?thesis
    proof (cases ?keep)
      case True
      let ?g = "(RectangleV, params, l + clearance, w + clearance)"
      have "grid_increments st shape_type params sheet_w sheet_h clearance = (Inr ?g, st)"
        using rectangle l w nz True no by (simp add: grid_increments_def getitem_def Let_def int_div_def)
      moreover have "frame_ok (frame_of shape_type ?g num_shapes sheet_w sheet_h) ?d"
        using rectangle l w c v by (simp add: frame_ok_def frame_of_def)
      ultimately show ?thesis using that(1)[of ?g st] len by (simp add: frame_of_def)
    next
      case False
      let ?g = "(RectangleV, length st, w + clearance, w + clearance)"
      let ?st0 = "st @ [[''l'' \<mapsto> w, ''w'' \<mapsto> l]]"
      have "grid_increments st shape_type params sheet_w sheet_h clearance = (Inr ?g, ?st0)"
        using rectangle l w nz False no by (simp add: grid_increments_def getitem_def Let_def int_div_def)
      moreover have "frame_ok (frame_of shape_type ?g num_shapes sheet_w sheet_h) (?st0 ! length st)"
        using rectangle l w c
        by (simp add: frame_ok_def frame_of_def valid_params_def positive_at_def)
      ultimately show ?thesis using that(1)[of ?g ?st0] by (simp add: frame_of_def)
    qed
    qed
  qed
qed

lemma x_offset_nonneg: "0 < f_dx f \<Longrightarrow> 0 \<le> x_offset_of f row"
  by (simp add: x_offset_of_def split: shape_vars.splits)

lemma grid_point_within:
  assumes ok: "frame_ok f d" and gp: "grid_point f d row col = Some (x, y)"
  shows "centre_within (f_sheet_w f) (f_sheet_h f) (f_shape_type f, d, x, y) \<and>
         footprint_within (f_sheet_w f) (f_sheet_h f) (f_shape_type f, d, x, y)"
proof -
  from ok have dx: "0 < f_dx f" and dy: "0 < f_dy f" by (simp_all add: frame_ok_def)
  have cx: "0 \<le> real col * f_dx f" and ry: "0 \<le> real row * f_dy f"
    using dx dy by simp_all
  have xo: "0 \<le> x_offset_of f row" by (rule x_offset_nonneg[OF dx])
  show ?thesis
  proof (cases "f_vars f")
    case (CircleV r)
    with ok have t: "f_shape_type f = ''circle''" "d ''r'' = Some r" "0 < r"
      by (auto simp: frame_ok_def valid_params_def positive_at_def)
    from gp CircleV have "y = r + real row * f_dy f" "y \<le> f_sheet_h f - r"
      "x = x_offset_of f row + r + real col * f_dx f" "x \<le> f_sheet_w f - r"
      by (auto simp: grid_point_def row_y_def col_x_def split: if_splits)
    with cx ry xo t show ?thesis
      by (simp add: centre_within_def footprint_within_def footprint_def half_extents_def)
  next
    case (SquareV L)
    with ok have t: "f_shape_type f = ''square''" "d ''L'' = Some L" "0 < L"
      by (auto simp: frame_ok_def valid_params_def positive_at_def)
    from gp SquareV have "y = L / 2 + real row * f_dy f" "y \<le> f_sheet_h f - L / 2"
      "x = x_offset_of f row + L / 2 + real col * f_dx f" "x \<le> f_sheet_w f - L / 2"
      by (auto simp: grid_point_def row_y_def col_x_def split: if_splits)
    with cx ry xo t show ?thesis
      by (simp add: centre_within_def footprint_within_def footprint_def half_extents_def)
  next
    case RectangleV
    with ok have t: "f_shape_type f = ''rectangle''" "positive_at d ''l''" "positive_at d ''w''"
      by (auto simp: frame_ok_def valid_params_def)
    from positive_atD[OF t(2)] positive_atD[OF t(3)]
    obtain l w where l: "d ''l'' = Some l" "0 < l" and w: "d ''w'' = Some w" "0 < w" by blast
    from gp RectangleV l w have "y = w / 2 + real row * f_dy f" "y \<le> f_sheet_h f - w / 2"
      "x = x_offset_of f row + l / 2 + real col * f_dx f" "x \<le> f_sheet_w f - l / 2"
      by (auto simp: grid_point_def row_y_def col_x_def getitem_def split: if_splits)
    with cx ry xo t l w show ?thesis
      by (simp add: centre_within_def footprint_within_def footprint_def half_extents_def)
  next
    case (TriangleV a)
    with ok have t: "f_shape_type f = ''triangle''" "d ''a'' = Some a" "0 < a"
      by (auto simp: frame_ok_def valid_params_def positive_at_def)
    define h where "h = a * sqrt 3 / 2"
    from gp TriangleV have "y = h / 3 + real row * f_dy f" "y \<le> f_sheet_h f - 2 * h / 3"
      "x = x_offset_of f row + a / 2 + real col * f_dx f" "x \<le> f_sheet_w f - a / 2"
      by (auto simp: grid_point_def row_y_def col_x_def h_def Let_def split: if_splits)
    with cx ry xo t show ?thesis
      by (simp add: centre_within_def footprint_within_def footprint_def half_extents_def
            Let_def h_def[symmetric])
  next
    case (SemiCircleV r)
    with ok have t: "f_shape_type f = ''semi-circle''" "d ''r'' = Some r" "0 < r"
      by (auto simp: frame_ok_def valid_params_def positive_at_def)
    from gp SemiCircleV have "y = r + real row * f_dy f" "y \<le> f_sheet_h f - r"
      "x = x_offset_of f row + r + real col * f_dx f" "x \<le> f_sheet_w f - r"
      by (auto simp: grid_point_def row_y_def col_x_def split: if_splits)
    with cx ry xo t show ?thesis
      by (simp add: centre_within_def footprint_within_def footprint_def half_extents_def)
  qed
qed

lemma appended_view:
  assumes "appended f st st' k new" "p \<in> set new"
  shows "st' ! ps_params p = st ! f_params f" "on_grid f (st ! f_params f) p"
proof -
  from assms(1) have st': "st' = st @ replicate k (st ! f_params f)"
    and m: "map ps_params new = [length st..<length st + k]"
    and g: "\<forall>p \<in> set new. on_grid f (st ! f_params f) p"
    by (simp_all add: appended_def)
  from assms(2) have "ps_params p \<in> set (map ps_params new)" by simp
  then have "length st \<le> ps_params p" "ps_params p < length st + k"
    unfolding m by simp_all
  then show "st' ! ps_params p = st ! f_params f"
    unfolding st' by (simp add: nth_append)
  from g assms(2) show "on_grid f (st ! f_params f) p" by blast
qed

lemma frame_of_simps:
  "f_shape_type (frame_of t g n w h) = t"
  "f_num_shapes (frame_of t g n w h) = n"
  "f_sheet_w (frame_of t g n w h) = w"
  "f_sheet_h (frame_of t g n w h) = h"
  by (simp_all add: frame_of_def split: prod.splits)

lemma pack_shapes_valid:
  assumes len: "params < length st"
    and v: "valid_params shape_type (st ! params)" and c: "0 \<le> clearance"
    and run: "pack_shapes st shape_type params num_shapes sheet_w sheet_h clearance =
                Some (Inr sheets, st')"
  obtains g st0 where
    "grid_increments st shape_type params sheet_w sheet_h clearance = (Inr g, st0)"
    "f_params (frame_of shape_type g num_shapes sheet_w sheet_h) < length st0"
    "frame_ok (frame_of shape_type g num_shapes sheet_w sheet_h)
       (st0 ! f_params (frame_of shape_type g num_shapes sheet_w sheet_h))"
    "sheets_loop (frame_of shape_type g num_shapes sheet_w sheet_h) 0 [] st0 =
       Some (Inr sheets, st')"
    "sheets_extend (frame_of shape_type g num_shapes sheet_w sheet_h) 0 [] st0
       (Inr sheets, st')"
proof (rule grid_increments_valid
    [OF v c len, where num_shapes = num_shapes and sheet_w = sheet_w and sheet_h = sheet_h])
  fix g :: "shape_vars \<times> addr \<times> real \<times> real" and st0 :: store
  assume gi: "grid_increments st shape_type params sheet_w sheet_h clearance = (Inr g, st0)"
    and l0: "f_params (frame_of shape_type g num_shapes sheet_w sheet_h) < length st0"
    and ok: "frame_ok (frame_of shape_type g num_shapes sheet_w sheet_h)
       (st0 ! f_params (frame_of shape_type g num_shapes sheet_w sheet_h))"
  from run gi have sl:
    "sheets_loop (frame_of shape_type g num_shapes sheet_w sheet_h) 0 [] st0 =
       Some (Inr sheets, st')"
    by (simp add: pack_shapes_frame_of)
  from sheets_loop_extend[OF sl l0] gi l0 ok sl that show thesis by blast
next
  assume "grid_increments st shape_type params sheet_w sheet_h clearance = (Inl OverflowError, st)"
  with run show thesis by (simp add: pack_shapes_frame_of)
qed

text \<open>
  The bound checks in exact arithmetic.  With the comparisons of lines 81 to 125 read
  over the real numbers, the centre of every placed shape keeps the half extents of
  its shape from the edges of the sheet on both axes (for the triangle a third of the
  height below the centre and two thirds above it), and the bounding box of what is
  drawn for the shape lies on the sheet.  The program compares rounded doubles: there
  \<^verbatim>\<open>bound\<close> is the rounded difference, and a centre that passes \<^verbatim>\<open>x > bound\<close> can exceed
  the exact difference by one rounding error.  Rounding is not part of this model, so
  the lemma says nothing about such a tie.
\<close>

lemma within_sheet_exact_arithmetic:
  assumes len: "params < length st"
    and v: "valid_params shape_type (st ! params)" and c: "0 \<le> clearance"
    and run: "pack_shapes st shape_type params num_shapes sheet_w sheet_h clearance =
                Some (Inr sheets, st')"
  shows "\<forall>v \<in> set (concat (view_sheets st' sheets)).
           centre_within sheet_w sheet_h v \<and> footprint_within sheet_w sheet_h v"
proof
  fix u assume "u \<in> set (concat (view_sheets st' sheets))"
  then obtain p where p: "p \<in> set (concat sheets)" and u: "u = view_shape st' p"
    by (auto simp: view_sheets_def)
  from len v c run show "centre_within sheet_w sheet_h u \<and> footprint_within sheet_w sheet_h u"
  proof (rule pack_shapes_valid)
    fix g :: "shape_vars \<times> addr \<times> real \<times> real" and st0 :: store
    let ?F = "frame_of shape_type g num_shapes sheet_w sheet_h"
    let ?d = "st0 ! f_params ?F"
    assume ok: "frame_ok ?F ?d"
      and ext: "sheets_extend ?F 0 [] st0 (Inr sheets, st')"
    from ext obtain k where ap: "appended ?F st0 st' k (concat sheets)"
      unfolding sheets_extend_def by auto
    note pv = appended_view[OF ap p]
    from pv(2) obtain row col where
      t: "ps_type p = shape_type" and gp: "grid_point ?F ?d row col = Some (ps_x p, ps_y p)"
      unfolding on_grid_def by (auto simp: frame_of_simps)
    from grid_point_within[OF ok gp]
    show ?thesis unfolding u view_shape_def pv(1) t by (simp add: frame_of_simps)
  qed
qed

lemma row_y_error: "row_y f d 0 = Inl e \<Longrightarrow> row_y f d row = Inl e"
  by (auto simp: row_y_def Let_def split: shape_vars.splits sum.splits)

lemma row_y_shift:
  "row_y f d 0 = Inr (y0, limit) \<Longrightarrow> row_y f d row = Inr (y0 + real row * f_dy f, limit)"
  by (auto simp: row_y_def Let_def split: shape_vars.splits sum.splits)

lemma col_x_error: "col_x f d xo 0 = Inl e \<Longrightarrow> col_x f d xo col = Inl e"
  by (auto simp: col_x_def split: shape_vars.splits sum.splits)

lemma col_x_shift:
  "col_x f d xo 0 = Inr (x0, bound) \<Longrightarrow> col_x f d xo col = Inr (x0 + real col * f_dx f, bound)"
  by (auto simp: col_x_def split: shape_vars.splits sum.splits)

lemma row_loop_simps_error:
  "row_y f (st ! f_params f) row = Inl e \<Longrightarrow> row_loop f row placed sp st = Some (Inl e, st)"
  by (subst row_loop.simps) simp

lemma row_loop_simps_stop:
  "row_y f (st ! f_params f) row = Inr (y, limit) \<Longrightarrow> y > limit \<Longrightarrow>
   row_loop f row placed sp st = Some (Inr (placed, sp), st)"
  by (subst row_loop.simps) simp

lemma row_loop_simps_row:
  "row_y f (st ! f_params f) row = Inr (y, limit) \<Longrightarrow> \<not> y > limit \<Longrightarrow>
   row_loop f row placed sp st =
     (case col_loop f (x_offset_of f row) y 0 placed sp st of
        (Inl e, st') \<Rightarrow> Some (Inl e, st')
      | (Inr (placed', sp'), st') \<Rightarrow>
          if placed' \<ge> f_num_shapes f then Some (Inr (placed', sp'), st')
          else row_loop f (row + 1) placed' sp' st')"
  by (subst row_loop.simps) simp

lemma row_loop_terminates:
  assumes dy: "0 < f_dy f" and len: "f_params f < length st"
  shows "\<exists>res. row_loop f row placed sp st = Some res"
proof -
  define d where "d = st ! f_params f"
  show ?thesis
  proof (cases "row_y f d 0")
    case (Inl e)
    from row_y_error[OF Inl] have "row_y f (st ! f_params f) row = Inl e" unfolding d_def .
    from row_loop_simps_error[OF this] show ?thesis by blast
  next
    case (Inr yl)
    obtain y0 limit where yl: "yl = (y0, limit)" by (cases yl)
    have ry: "row_y f d row = Inr (y0 + real row * f_dy f, limit)" for row
      by (rule row_y_shift[OF Inr[unfolded yl]])
    define N where "N = nat \<lfloor>(limit - y0) / f_dy f\<rfloor> + 1"
    have beyond: "y0 + real row * f_dy f > limit" if "N \<le> row" for row
    proof -
      have "(limit - y0) / f_dy f < real_of_int (\<lfloor>(limit - y0) / f_dy f\<rfloor> + 1)"
        by linarith
      also have "\<dots> \<le> real N" unfolding N_def by linarith
      also have "\<dots> \<le> real row" using that by simp
      finally have "(limit - y0) / f_dy f < real row" .
      then have "limit - y0 < real row * f_dy f" using dy by (simp add: pos_divide_less_eq)
      then show ?thesis by linarith
    qed
    have "\<exists>res. row_loop f row placed sp st = Some res"
      if "N - row = n" "f_params f < length st" "st ! f_params f = d" for n row placed sp st
      using that
    proof (induction n arbitrary: row placed sp st)
      case 0
      then have "N \<le> row" by simp
      from row_loop_simps_stop[of f st row, unfolded "0.prems"(3), OF ry beyond[OF this]]
      show ?case by blast
    next
      case (Suc n)
      let ?y = "y0 + real row * f_dy f"
      have ry': "row_y f (st ! f_params f) row = Inr (?y, limit)"
        unfolding Suc.prems(3) by (rule ry)
      show ?case
      proof (cases "?y > limit")
        case True
        from row_loop_simps_stop[OF ry' True] show ?thesis by blast
      next
        case False
        obtain r1 st1 where c: "col_loop f (x_offset_of f row) ?y 0 placed sp st = (r1, st1)"
          by (cases "col_loop f (x_offset_of f row) ?y 0 placed sp st")
        have e1: "extends f placed sp st (r1, st1)"
          using extends_col_loop[OF Suc.prems(2) ry' False, of placed sp 0] c by simp
        note pp = extends_params[OF Suc.prems(2) e1]
        show ?thesis
        proof (cases r1)
          case (Inl e)
          with row_loop_simps_row[OF ry' False, of placed sp] c show ?thesis by simp
        next
          case (Inr ps)
          obtain p1 sp1 where ps: "ps = (p1, sp1)" by (cases ps)
          show ?thesis
          proof (cases "f_num_shapes f \<le> p1")
            case True
            with row_loop_simps_row[OF ry' False, of placed sp] c Inr ps show ?thesis by simp
          next
            case nle: False
            have "N - (row + 1) = n" using Suc.prems(1) by simp
            moreover have "st1 ! f_params f = d" using pp(2) Suc.prems(3) by simp
            ultimately obtain res where "row_loop f (row + 1) p1 sp1 st1 = Some res"
              using Suc.IH[OF _ pp(1), of "row + 1" p1 sp1] by blast
            with row_loop_simps_row[OF ry' False, of placed sp] c Inr ps nle show ?thesis by simp
          qed
        qed
      qed
    qed
    from this[OF refl len] show ?thesis by (simp add: d_def)
  qed
qed

lemma sheets_loop_terminates:
  assumes dy: "0 < f_dy f" and len: "f_params f < length st"
  shows "\<exists>res. sheets_loop f placed sheets st = Some res"
  using len
proof (induction "nat (f_num_shapes f - placed)" arbitrary: placed sheets st rule: less_induct)
  case less
  show ?case
  proof (cases "placed < f_num_shapes f")
    case False
    then show ?thesis by (subst sheets_loop.simps) simp
  next
    case lt: True
    from row_loop_terminates[OF dy less.prems] obtain r1 st1
      where rl: "row_loop f 0 placed [] st = Some (r1, st1)" by fastforce
    note e1 = row_loop_extends[OF rl less.prems]
    show ?thesis
    proof (cases r1)
      case (Inl e)
      with lt rl show ?thesis by (subst sheets_loop.simps) simp
    next
      case (Inr ps)
      obtain p1 sp1 where ps: "ps = (p1, sp1)" by (cases ps)
      note r1 = Inr[unfolded ps]
      show ?thesis
      proof (cases "sp1 = [] \<or> f_num_shapes f \<le> p1")
        case True
        with lt rl r1 show ?thesis by (subst sheets_loop.simps) auto
      next
        case False
        from e1 r1 obtain k new where ap: "appended f st st1 k new"
          and p1: "p1 = placed + int k" and sp1: "sp1 = new"
          unfolding extends_def by auto
        from appended_length[OF ap] sp1 False have "0 < k" by auto
        with p1 lt have decr: "nat (f_num_shapes f - p1) < nat (f_num_shapes f - placed)"
          by simp
        from less.hyps[OF decr appended_params(1)[OF less.prems ap]]
        obtain res where "sheets_loop f p1 (sheets @ [sp1]) st1 = Some res" by blast
        with lt rl r1 False show ?thesis by (subst sheets_loop.simps) simp
      qed
    qed
  qed
qed

lemma length_le_concat: "[] \<notin> set xss \<Longrightarrow> length xss \<le> length (concat xss)"
proof (induction xss)
  case Nil
  then show ?case by simp
next
  case (Cons xs xss)
  then have "xs \<noteq> []" "[] \<notin> set xss" by auto
  then have "1 \<le> length xs" "length xss \<le> length (concat xss)"
    using Cons.IH by (simp_all add: Suc_le_eq)
  then show ?case by simp
qed

lemma sheets_extend_startD:
  assumes "sheets_extend f 0 [] st (res, st')"
  obtains k new where "appended f st st' k (concat new)" "[] \<notin> set new"
    "\<And>sheets. res = Inr sheets \<Longrightarrow> sheets = new"
    "\<And>sheets. res = Inr sheets \<Longrightarrow> 0 < f_num_shapes f \<Longrightarrow> int k = f_num_shapes f"
    "\<And>sheets. res = Inr sheets \<Longrightarrow> \<not> 0 < f_num_shapes f \<Longrightarrow> k = 0"
proof -
  from assms obtain k new where a: "appended f st st' k (concat new)" "[] \<notin> set new"
    and b: "\<forall>sheets'. res = Inr sheets' \<longrightarrow> sheets' = new \<and>
           (if 0 < f_num_shapes f then 0 + int k = f_num_shapes f else k = 0)"
    unfolding sheets_extend_def by auto
  from b have "\<And>sheets. res = Inr sheets \<Longrightarrow> sheets = new"
    "\<And>sheets. res = Inr sheets \<Longrightarrow> 0 < f_num_shapes f \<Longrightarrow> int k = f_num_shapes f"
    "\<And>sheets. res = Inr sheets \<Longrightarrow> \<not> 0 < f_num_shapes f \<Longrightarrow> k = 0"
    by (auto split: if_splits)
  with a that show thesis by blast
qed

text \<open>
  Claim C8.  For a supported shape type with strictly positive parameters, a clearance
  that is not negative and any requested count, \<^verbatim>\<open>pack_shapes\<close> returns (a result or an
  error).  The increments are positive, so the row loop of every sheet ends; every
  sheet appended holds at least one shape, so the number of sheets is at most the
  requested count.
\<close>

theorem pack_shapes_terminates:
  assumes len: "params < length st"
    and v: "valid_params shape_type (st ! params)" and c: "0 \<le> clearance"
  shows "\<exists>res st'.
           pack_shapes st shape_type params num_shapes sheet_w sheet_h clearance = Some (res, st') \<and>
           (\<forall>sheets. res = Inr sheets \<longrightarrow>
              [] \<notin> set sheets \<and> int (length sheets) \<le> max 0 num_shapes)"
proof (rule grid_increments_valid
    [OF v c len, where num_shapes = num_shapes and sheet_w = sheet_w and sheet_h = sheet_h])
  assume "grid_increments st shape_type params sheet_w sheet_h clearance = (Inl OverflowError, st)"
  then have "pack_shapes st shape_type params num_shapes sheet_w sheet_h clearance =
      Some (Inl OverflowError, st)" by (simp add: pack_shapes_frame_of)
  then show ?thesis by simp
next
  fix g :: "shape_vars \<times> addr \<times> real \<times> real" and st0 :: store
  assume gi: "grid_increments st shape_type params sheet_w sheet_h clearance = (Inr g, st0)"
    and l0: "f_params (frame_of shape_type g num_shapes sheet_w sheet_h) < length st0"
    and ok: "frame_ok (frame_of shape_type g num_shapes sheet_w sheet_h)
       (st0 ! f_params (frame_of shape_type g num_shapes sheet_w sheet_h))"
  let ?F = "frame_of shape_type g num_shapes sheet_w sheet_h"
  from ok have dy: "0 < f_dy ?F" by (simp add: frame_ok_def)
  from sheets_loop_terminates[OF dy l0] obtain res st'
    where sl: "sheets_loop ?F 0 [] st0 = Some (res, st')" by fastforce
  with gi have run: "pack_shapes st shape_type params num_shapes sheet_w sheet_h clearance = Some (res, st')"
    by (simp add: pack_shapes_frame_of)
  from sheets_loop_extend[OF sl l0] obtain k new where
    ap: "appended ?F st0 st' k (concat new)" and ne: "[] \<notin> set new"
    and rs: "\<And>sheets. res = Inr sheets \<Longrightarrow> sheets = new"
    and pos: "\<And>sheets. res = Inr sheets \<Longrightarrow> 0 < num_shapes \<Longrightarrow> int k = num_shapes"
    and npos: "\<And>sheets. res = Inr sheets \<Longrightarrow> \<not> 0 < num_shapes \<Longrightarrow> k = 0"
    by (rule sheets_extend_startD) (simp add: frame_of_simps)
  have le: "length new \<le> k" using length_le_concat[OF ne] appended_length[OF ap] by simp
  have "[] \<notin> set sheets \<and> int (length sheets) \<le> max 0 num_shapes" if "res = Inr sheets" for sheets
  proof (cases "0 < num_shapes")
    case True
    with pos[OF that] rs[OF that] ne le show ?thesis by simp
  next
    case False
    with npos[OF that] rs[OF that] ne le show ?thesis by simp
  qed
  with run show ?thesis by blast
qed

lemma square_request:
  "pack_shapes [[''L'' \<mapsto> 1]] ''square'' 0 3 2 1 0 =
     Some (Inr [[\<lparr>ps_type = ''square'', ps_params = 1, ps_x = 1 / 2, ps_y = 1 / 2\<rparr>,
                 \<lparr>ps_type = ''square'', ps_params = 2, ps_x = 3 / 2, ps_y = 1 / 2\<rparr>],
                [\<lparr>ps_type = ''square'', ps_params = 3, ps_x = 1 / 2, ps_y = 1 / 2\<rparr>]],
           [[''L'' \<mapsto> 1], [''L'' \<mapsto> 1], [''L'' \<mapsto> 1], [''L'' \<mapsto> 1]])"
  by (simp add: pack_eval)

theorem pack_shapes_fresh_copies_witness:
  "let st = [[''L'' \<mapsto> 1 :: real]];
       sheets = [[\<lparr>ps_type = ''square'', ps_params = 1, ps_x = 1 / 2, ps_y = 1 / 2\<rparr>,
                  \<lparr>ps_type = ''square'', ps_params = 2, ps_x = 3 / 2, ps_y = 1 / 2\<rparr>],
                 [\<lparr>ps_type = ''square'', ps_params = 3, ps_x = 1 / 2, ps_y = 1 / 2\<rparr>]];
       st' = [[''L'' \<mapsto> 1], [''L'' \<mapsto> 1], [''L'' \<mapsto> 1], [''L'' \<mapsto> 1]]
   in 0 < length st \<and>
      pack_shapes st ''square'' 0 3 2 1 0 = Some (Inr sheets, st') \<and>
      take (length st) st' = st \<and> st' ! 0 = st ! 0 \<and>
      distinct (concat (map (map ps_params) sheets)) \<and>
      (\<forall>a \<in> set (concat (map (map ps_params) sheets)).
          length st \<le> a \<and> a < length st' \<and> a \<noteq> 0 \<and> st' ! a = st ! 0)"
proof -
  have len: "0 < length [[''L'' \<mapsto> 1 :: real]]" by simp
  show ?thesis
    using pack_shapes_fresh_copies[OF len square_request] square_request
    by (simp add: Let_def)
qed

theorem pack_shapes_terminates_witness:
  "let st = [[''L'' \<mapsto> 1 :: real]]
   in 0 < length st \<and> valid_params ''square'' (st ! 0) \<and> (0 :: real) \<le> 0 \<and>
      (\<exists>res st'. pack_shapes st ''square'' 0 3 2 1 0 = Some (res, st') \<and>
         (\<forall>sheets. res = Inr sheets \<longrightarrow>
            [] \<notin> set sheets \<and> int (length sheets) \<le> max 0 3))"
proof -
  have len: "0 < length [[''L'' \<mapsto> 1 :: real]]" by simp
  have v: "valid_params ''square'' ([[''L'' \<mapsto> 1 :: real]] ! 0)"
    by (simp add: valid_params_def positive_at_def)
  have c: "(0 :: real) \<le> 0" by simp
  show ?thesis
    using pack_shapes_terminates[OF len v c, of 3 2 1] v
    by (simp add: Let_def)
qed



lemma circle_increments:
  "grid_increments [[''r'' \<mapsto> 1 / 10]] ''circle'' 0 1 1 0 =
     (Inr (CircleV (1 / 10), 0, 1 / 5, sqrt 3 / 10), [[''r'' \<mapsto> 1 / 10]])"
  by (simp add: grid_increments_def getitem_def Let_def)

lemma sqrt3_bounds: "8 / 5 < sqrt 3" "sqrt 3 \<le> 2"
proof -
  have "sqrt ((8 / 5)\<^sup>2) < sqrt 3" by (subst real_sqrt_less_iff) (simp add: power2_eq_square)
  then show "8 / 5 < sqrt 3" by simp
  have "sqrt 3 \<le> sqrt (2\<^sup>2)" by (subst real_sqrt_le_iff) simp
  then show "sqrt 3 \<le> 2" by simp
qed

lemma circle_row_y:
  "row_y circle_frame d row = Inr (1 / 10 + real row * (sqrt 3 / 10), 9 / 10)"
  by (simp add: row_y_def)

lemma circle_row_fits: "row \<le> 4 \<Longrightarrow> \<not> 1 / 10 + real row * (sqrt 3 / 10) > 9 / 10"
proof -
  assume "row \<le> 4"
  then have "real row \<le> 4" by simp
  then have "real row * sqrt 3 \<le> 4 * 2"
    using sqrt3_bounds(2) by (intro mult_mono) simp_all
  then show ?thesis by simp
qed

lemma circle_row_5: "1 / 10 + real 5 * (sqrt 3 / 10) > 9 / 10"
  using sqrt3_bounds(1) by simp

lemma circle_even_cols:
  "placed + 5 \<le> 24 \<Longrightarrow>
   col_loop circle_frame 0 y 0 placed sp (d0 # rest) =
     (Inr (placed + 5,
           sp @ circles_at (Suc (length rest)) y [1 / 10, 3 / 10, 5 / 10, 7 / 10, 9 / 10]),
      d0 # rest @ replicate 5 d0)"
  by (simp add: col_loop.simps col_x_def numeral_eq_Suc)

lemma circle_odd_cols:
  "placed + 4 \<le> 24 \<Longrightarrow>
   col_loop circle_frame (1 / 10) y 0 placed sp (d0 # rest) =
     (Inr (placed + 4,
           sp @ circles_at (Suc (length rest)) y [2 / 10, 4 / 10, 6 / 10, 8 / 10]),
      d0 # rest @ replicate 4 d0)"
  by (simp add: col_loop.simps col_x_def numeral_eq_Suc)

lemma circle_last_col:
  "col_loop circle_frame 0 y 0 23 sp (d0 # rest) =
     (Inr (24, sp @ circles_at (Suc (length rest)) y [1 / 10]), d0 # rest @ [d0])"
  by (simp add: col_loop.simps col_x_def)

lemma circle_even_row:
  assumes "row \<le> 4" "even row" "placed + 5 < 24"
  shows "row_loop circle_frame row placed sp (d0 # rest) =
         row_loop circle_frame (row + 1) (placed + 5)
           (sp @ circles_at (Suc (length rest)) (1 / 10 + real row * (sqrt 3 / 10))
                   [1 / 10, 3 / 10, 5 / 10, 7 / 10, 9 / 10])
           (d0 # rest @ replicate 5 d0)"
proof -
  have xo: "x_offset_of circle_frame row = 0" using assms(2) by (simp add: x_offset_of_def)
  have le: "placed + 5 \<le> 24" using assms(3) by simp
  show ?thesis
    by (subst row_loop_simps_row[OF circle_row_y circle_row_fits[OF assms(1)]])
       (use assms(3) in \<open>simp add: xo circle_even_cols[OF le]\<close>)
qed

lemma circle_odd_row:
  assumes "row \<le> 4" "odd row" "placed + 4 < 24"
  shows "row_loop circle_frame row placed sp (d0 # rest) =
         row_loop circle_frame (row + 1) (placed + 4)
           (sp @ circles_at (Suc (length rest)) (1 / 10 + real row * (sqrt 3 / 10))
                   [2 / 10, 4 / 10, 6 / 10, 8 / 10])
           (d0 # rest @ replicate 4 d0)"
proof -
  have xo: "x_offset_of circle_frame row = 1 / 10"
    using assms(2) by (simp add: x_offset_of_def odd_iff_mod_2_eq_one)
  have le: "placed + 4 \<le> 24" using assms(3) by simp
  show ?thesis
    by (subst row_loop_simps_row[OF circle_row_y circle_row_fits[OF assms(1)]])
       (use assms(3) in \<open>simp add: xo circle_odd_cols[OF le]\<close>)
qed

lemma circle_no_sixth_row:
  "row_loop circle_frame 5 placed sp st = Some (Inr (placed, sp), st)"
  by (rule row_loop_simps_stop[OF circle_row_y circle_row_5])

lemma replicate_grow: "replicate m d0 @ replicate n d0 = replicate (m + n) d0"
  by (simp add: replicate_add)

lemma circle_first_sheet:
  "row_loop circle_frame 0 0 [] [d0] =
     Some (Inr (23,
             circles_at 1 (1 / 10 + real 0 * (sqrt 3 / 10)) [1 / 10, 3 / 10, 5 / 10, 7 / 10, 9 / 10] @
             circles_at 6 (1 / 10 + real 1 * (sqrt 3 / 10)) [2 / 10, 4 / 10, 6 / 10, 8 / 10] @
             circles_at 10 (1 / 10 + real 2 * (sqrt 3 / 10)) [1 / 10, 3 / 10, 5 / 10, 7 / 10, 9 / 10] @
             circles_at 15 (1 / 10 + real 3 * (sqrt 3 / 10)) [2 / 10, 4 / 10, 6 / 10, 8 / 10] @
             circles_at 19 (1 / 10 + real 4 * (sqrt 3 / 10)) [1 / 10, 3 / 10, 5 / 10, 7 / 10, 9 / 10]),
           d0 # replicate 23 d0)"
  (is "_ = Some (Inr (23, ?r0 @ ?r1 @ ?r2 @ ?r3 @ ?r4), _)")
proof -
  have "row_loop circle_frame 0 0 [] [d0] = row_loop circle_frame 1 5 ?r0 (d0 # replicate 5 d0)"
    using circle_even_row[of 0 0 "[]" d0 "[]"] by (simp del: circles_at.simps)
  also have "\<dots> = row_loop circle_frame 2 9 (?r0 @ ?r1) (d0 # replicate 9 d0)"
    using circle_odd_row[of 1 5 ?r0 d0 "replicate 5 d0"]
    by (simp add: replicate_grow del: circles_at.simps flip: numeral_2_eq_2)
  also have "\<dots> = row_loop circle_frame 3 14 ((?r0 @ ?r1) @ ?r2) (d0 # replicate 14 d0)"
    using circle_even_row[of 2 9 "?r0 @ ?r1" d0 "replicate 9 d0"]
    by (simp add: replicate_grow del: circles_at.simps flip: numeral_2_eq_2)
  also have "\<dots> = row_loop circle_frame 4 18 (((?r0 @ ?r1) @ ?r2) @ ?r3) (d0 # replicate 18 d0)"
    using circle_odd_row[of 3 14 "(?r0 @ ?r1) @ ?r2" d0 "replicate 14 d0"]
    by (simp add: replicate_grow del: circles_at.simps flip: numeral_2_eq_2)
  also have "\<dots> = row_loop circle_frame 5 23 ((((?r0 @ ?r1) @ ?r2) @ ?r3) @ ?r4) (d0 # replicate 23 d0)"
    using circle_even_row[of 4 18 "((?r0 @ ?r1) @ ?r2) @ ?r3" d0 "replicate 18 d0"]
    by (simp add: replicate_grow del: circles_at.simps flip: numeral_2_eq_2)
  also have "\<dots> = Some (Inr (23, (((?r0 @ ?r1) @ ?r2) @ ?r3) @ ?r4), d0 # replicate 23 d0)"
    by (rule circle_no_sixth_row)
  finally show ?thesis by (simp del: circles_at.simps)
qed

lemma circle_second_sheet:
  "row_loop circle_frame 0 23 [] (d0 # replicate 23 d0) =
     Some (Inr (24, circles_at 24 (1 / 10) [1 / 10]), d0 # replicate 24 d0)"
proof -
  have "\<not> 1 / 10 + real 0 * (sqrt 3 / 10) > 9 / 10" by simp
  moreover have "replicate (Suc 23) d0 = d0 # replicate 23 d0" by (rule replicate_Suc)
  then have "replicate 24 d0 = d0 # replicate 23 d0" by simp
  ultimately show ?thesis
    using row_loop_simps_row[OF circle_row_y, of 0 23 "[]" "d0 # replicate 23 d0"]
    by (simp add: x_offset_of_def circle_last_col replicate_append_same del: circles_at.simps)
qed

lemma circles_at_Cons_neq_Nil: "circles_at a y (x # xs) \<noteq> []"
  by simp

lemma circle_two_sheets:
  "sheets_loop circle_frame 0 [] [d0] =
     Some (Inr [circles_at 1 (1 / 10 + real 0 * (sqrt 3 / 10)) [1 / 10, 3 / 10, 5 / 10, 7 / 10, 9 / 10] @
                circles_at 6 (1 / 10 + real 1 * (sqrt 3 / 10)) [2 / 10, 4 / 10, 6 / 10, 8 / 10] @
                circles_at 10 (1 / 10 + real 2 * (sqrt 3 / 10)) [1 / 10, 3 / 10, 5 / 10, 7 / 10, 9 / 10] @
                circles_at 15 (1 / 10 + real 3 * (sqrt 3 / 10)) [2 / 10, 4 / 10, 6 / 10, 8 / 10] @
                circles_at 19 (1 / 10 + real 4 * (sqrt 3 / 10)) [1 / 10, 3 / 10, 5 / 10, 7 / 10, 9 / 10],
                circles_at 24 (1 / 10) [1 / 10]],
           d0 # replicate 24 d0)"
  (is "_ = Some (Inr [?s1, ?s2], _)")
proof -
  note ne = circles_at_Cons_neq_Nil
  have "sheets_loop circle_frame 0 [] [d0] = sheets_loop circle_frame 23 [?s1] (d0 # replicate 23 d0)"
    by (subst sheets_loop.simps) (simp add: circle_first_sheet ne del: circles_at.simps)
  also have "\<dots> = Some (Inr [?s1, ?s2], d0 # replicate 24 d0)"
    by (subst sheets_loop.simps) (simp add: circle_second_sheet ne del: circles_at.simps)
  finally show ?thesis .
qed

text \<open>
  Claim C7.  A circle of radius \<open>0.1\<close> with clearance \<open>0\<close> on a 1 by 1 sheet: the increments
  are \<open>dx = 0.2\<close> and \<open>dy = 0.2 * sqrt 3 / 2\<close>.  A request for 24 circles fills the first sheet
  with 23 of them, in five rows starting at \<open>y = 0.1\<close>: five columns from \<open>x = 0.1\<close> to
  \<open>0.9\<close> in the rows 0, 2 and 4, four columns from \<open>x = 0.2\<close> to \<open>0.8\<close> in the rows 1 and
  3.  There is no sixth row and no further column, so the 24th circle opens a second
  sheet.
\<close>

theorem circle_scenario:
  "grid_increments [[''r'' \<mapsto> 1 / 10]] ''circle'' 0 1 1 0 =
     (Inr (CircleV (1 / 10), 0, 2 / 10, 2 / 10 * sqrt 3 / 2), [[''r'' \<mapsto> 1 / 10]]) \<and>
   pack_shapes [[''r'' \<mapsto> 1 / 10]] ''circle'' 0 24 1 1 0 =
     Some (Inr [circles_at 1 (1 / 10) [1 / 10, 3 / 10, 5 / 10, 7 / 10, 9 / 10] @
                circles_at 6 (1 / 10 + 1 * (2 / 10 * sqrt 3 / 2)) [2 / 10, 4 / 10, 6 / 10, 8 / 10] @
                circles_at 10 (1 / 10 + 2 * (2 / 10 * sqrt 3 / 2)) [1 / 10, 3 / 10, 5 / 10, 7 / 10, 9 / 10] @
                circles_at 15 (1 / 10 + 3 * (2 / 10 * sqrt 3 / 2)) [2 / 10, 4 / 10, 6 / 10, 8 / 10] @
                circles_at 19 (1 / 10 + 4 * (2 / 10 * sqrt 3 / 2)) [1 / 10, 3 / 10, 5 / 10, 7 / 10, 9 / 10],
                circles_at 24 (1 / 10) [1 / 10]],
           replicate 25 [''r'' \<mapsto> 1 / 10])"
proof -
  have "replicate (Suc 24) [''r'' \<mapsto> 1 / 10 :: real] =
        [''r'' \<mapsto> 1 / 10] # replicate 24 [''r'' \<mapsto> 1 / 10]" by (rule replicate_Suc)
  then have r: "replicate 25 [''r'' \<mapsto> 1 / 10 :: real] =
        [''r'' \<mapsto> 1 / 10] # replicate 24 [''r'' \<mapsto> 1 / 10]" by simp
  show ?thesis
    using circle_two_sheets[of "[''r'' \<mapsto> 1 / 10]"]
    by (simp add: pack_shapes_def circle_increments r del: circles_at.simps)
qed

lemma same_locals_fields:
  assumes "same_locals f f'"
  shows "f_shape_type f' = f_shape_type f" "f_vars f' = f_vars f" "f_dx f' = f_dx f"
    "f_dy f' = f_dy f" "f_num_shapes f' = f_num_shapes f" "f_sheet_w f' = f_sheet_w f"
    "f_sheet_h f' = f_sheet_h f"
proof -
  from assms have e: "f' = f\<lparr>f_params := f_params f'\<rparr>" by (simp add: same_locals_def)
  show "f_shape_type f' = f_shape_type f" by (subst e) simp
  show "f_vars f' = f_vars f" by (subst e) simp
  show "f_dx f' = f_dx f" by (subst e) simp
  show "f_dy f' = f_dy f" by (subst e) simp
  show "f_num_shapes f' = f_num_shapes f" by (subst e) simp
  show "f_sheet_w f' = f_sheet_w f" by (subst e) simp
  show "f_sheet_h f' = f_sheet_h f" by (subst e) simp
qed

lemma same_locals_col_x: "same_locals f f' \<Longrightarrow> col_x f' d xo col = col_x f d xo col"
  by (simp add: col_x_def same_locals_fields cong: shape_vars.case_cong sum.case_cong)

lemma same_locals_row_y: "same_locals f f' \<Longrightarrow> row_y f' d row = row_y f d row"
  by (simp add: row_y_def same_locals_fields cong: shape_vars.case_cong sum.case_cong)

lemma same_locals_x_offset: "same_locals f f' \<Longrightarrow> x_offset_of f' row = x_offset_of f row"
  by (simp add: x_offset_of_def same_locals_fields cong: shape_vars.case_cong)

lemma col_loop_same:
  assumes "same_locals f f'"
    and "f_params f < length st" "f_params f' < length st'"
    and "st' ! f_params f' = st ! f_params f"
    and "map coords_of sp' = map coords_of sp"
  shows "same_cols (fst (col_loop f xo y col placed sp st))
                   (fst (col_loop f' xo y col placed sp' st'))"
  using assms
proof (induction f xo y col placed sp st arbitrary: sp' st' rule: col_loop.induct)
  case (1 f xo y col placed sp st)
  let ?d = "st ! f_params f"
  note sl = "1.prems"(1)
  have cx: "col_x f' (st' ! f_params f') xo col = col_x f ?d xo col"
    using same_locals_col_x[OF sl] "1.prems"(4) by simp
  have num: "f_num_shapes f' = f_num_shapes f" by (rule same_locals_fields[OF sl])
  show ?case
  proof (cases "col_x f ?d xo col")
    case (Inl e)
    from col_loop_error[OF Inl] col_loop_error[OF cx[unfolded Inl]]
    show ?thesis by (simp add: same_cols_def)
  next
    case (Inr xb)
    obtain x b where xb: "xb = (x, b)" by (cases xb)
    note c = Inr[unfolded xb]
    note c' = cx[unfolded c]
    show ?thesis
    proof (cases "x > b \<or> \<not> placed < f_num_shapes f")
      case True
      then have True': "x > b \<or> \<not> placed < f_num_shapes f'" by (simp add: num)
      from col_loop_stop[OF c True] col_loop_stop[OF c' True'] "1.prems"(5)
      show ?thesis by (simp add: same_cols_def)
    next
      case False
      then have nx: "\<not> x > b" and lt: "placed < f_num_shapes f" by simp_all
      have lt': "placed < f_num_shapes f'" using lt by (simp add: num)
      let ?p = "\<lparr>ps_type = f_shape_type f, ps_params = length st, ps_x = x, ps_y = y\<rparr>"
      let ?p' = "\<lparr>ps_type = f_shape_type f', ps_params = length st', ps_x = x, ps_y = y\<rparr>"
      have ty: "f_shape_type f' = f_shape_type f" by (rule same_locals_fields[OF sl])
      have a: "f_params f < length (st @ [?d])" using "1.prems"(2) by simp
      have a': "f_params f' < length (st' @ [st' ! f_params f'])" using "1.prems"(3) by simp
      have d: "(st' @ [st' ! f_params f']) ! f_params f' = (st @ [?d]) ! f_params f"
        using "1.prems"(2,3,4) by (simp add: nth_append)
      have "coords_of ?p' = coords_of ?p" using ty by (simp add: coords_of_def)
      then have m: "map coords_of (sp' @ [?p']) = map coords_of (sp @ [?p])"
        using "1.prems"(5) by simp
      from "1.IH"[OF Inr xb[symmetric] nx lt sl a a' d m]
      show ?thesis
        unfolding col_loop_step[OF c nx lt] col_loop_step[OF c' nx lt'] .
    qed
  qed
qed

lemma same_cols_refl_error: "same_cols (Inl e) (Inl e)"
  by (simp add: same_cols_def)

lemma row_loop_same_aux:
  assumes run: "row_loop f0 row0 placed0 sp0 st0 = Some res0"
  shows "\<forall>f' sp' st'.
           same_locals f0 f' \<and> f_params f0 < length st0 \<and> f_params f' < length st' \<and>
           st' ! f_params f' = st0 ! f_params f0 \<and> map coords_of sp' = map coords_of sp0 \<longrightarrow>
           (\<exists>res'. row_loop f' row0 placed0 sp' st' = Some res' \<and> same_cols (fst res0) (fst res'))"
proof (rule row_loop.raw_induct
    [where P = "\<lambda>f row placed sp st res. \<forall>f' sp' st'.
           same_locals f f' \<and> f_params f < length st \<and> f_params f' < length st' \<and>
           st' ! f_params f' = st ! f_params f \<and> map coords_of sp' = map coords_of sp \<longrightarrow>
           (\<exists>res'. row_loop f' row placed sp' st' = Some res' \<and> same_cols (fst res) (fst res'))",
     OF _ run])
  fix rl :: "frame \<Rightarrow> nat \<Rightarrow> int \<Rightarrow> placed_shape list \<Rightarrow> store \<Rightarrow>
             ((error + int \<times> placed_shape list) \<times> store) option"
    and f row placed sp st res
  assume IH: "\<And>f row placed sp st res. rl f row placed sp st = Some res \<Longrightarrow>
     \<forall>f' sp' st'.
           same_locals f f' \<and> f_params f < length st \<and> f_params f' < length st' \<and>
           st' ! f_params f' = st ! f_params f \<and> map coords_of sp' = map coords_of sp \<longrightarrow>
           (\<exists>res'. row_loop f' row placed sp' st' = Some res' \<and> same_cols (fst res) (fst res'))"
  assume body: "(case row_y f (st ! f_params f) row of
       Inl e \<Rightarrow> Some (Inl e, st)
     | Inr (y, limit) \<Rightarrow>
         if y > limit then Some (Inr (placed, sp), st)
         else
           (case col_loop f (x_offset_of f row) y 0 placed sp st of
              (Inl e, st') \<Rightarrow> Some (Inl e, st')
            | (Inr (placed', sp'), st') \<Rightarrow>
                if placed' \<ge> f_num_shapes f
                then Some (Inr (placed', sp'), st')
                else rl f (row + 1) placed' sp' st')) = Some res"
  let ?d = "st ! f_params f"
  show "\<forall>f' sp' st'.
           same_locals f f' \<and> f_params f < length st \<and> f_params f' < length st' \<and>
           st' ! f_params f' = st ! f_params f \<and> map coords_of sp' = map coords_of sp \<longrightarrow>
           (\<exists>res'. row_loop f' row placed sp' st' = Some res' \<and> same_cols (fst res) (fst res'))"
  proof (intro allI impI, elim conjE)
    fix f' sp' st'
    assume sl: "same_locals f f'" and len: "f_params f < length st"
      and len': "f_params f' < length st'" and d': "st' ! f_params f' = ?d"
      and m: "map coords_of sp' = map coords_of sp"
    have ry': "row_y f' (st' ! f_params f') row = row_y f ?d row"
      using same_locals_row_y[OF sl] d' by simp
    have xo: "x_offset_of f' row = x_offset_of f row" by (rule same_locals_x_offset[OF sl])
    have num: "f_num_shapes f' = f_num_shapes f" by (rule same_locals_fields[OF sl])
    show "\<exists>res'. row_loop f' row placed sp' st' = Some res' \<and> same_cols (fst res) (fst res')"
    proof (cases "row_y f ?d row")
      case (Inl e)
      with body have "res = (Inl e, st)" by simp
      moreover from row_loop_simps_error[OF ry'[unfolded Inl]]
      have "row_loop f' row placed sp' st' = Some (Inl e, st')" .
      ultimately show ?thesis by (simp add: same_cols_def)
    next
      case (Inr yl)
      obtain y limit where yl: "yl = (y, limit)" by (cases yl)
      note ry = Inr[unfolded yl]
      note ry2 = ry'[unfolded ry]
      show ?thesis
      proof (cases "y > limit")
        case True
        with body ry have "res = (Inr (placed, sp), st)" by simp
        moreover from row_loop_simps_stop[OF ry2 True]
        have "row_loop f' row placed sp' st' = Some (Inr (placed, sp'), st')" .
        ultimately show ?thesis using m by (simp add: same_cols_def)
      next
        case False
        obtain r1 st1 where c: "col_loop f (x_offset_of f row) y 0 placed sp st = (r1, st1)"
          by (cases "col_loop f (x_offset_of f row) y 0 placed sp st")
        obtain r1' st1' where c': "col_loop f' (x_offset_of f row) y 0 placed sp' st' = (r1', st1')"
          by (cases "col_loop f' (x_offset_of f row) y 0 placed sp' st'")
        have same1: "same_cols r1 r1'"
          using col_loop_same[OF sl len len' d' m, of "x_offset_of f row" y 0 placed] c c'
          by simp
        have e1: "extends f placed sp st (r1, st1)"
          using extends_col_loop[OF len ry False, of placed sp 0] c by simp
        have e1': "extends f' placed sp' st' (r1', st1')"
          using extends_col_loop[OF len' ry2 False, of placed sp' 0] c' xo by simp
        note pp = extends_params[OF len e1]
        note pp' = extends_params[OF len' e1']
        note unf' = row_loop_simps_row[OF ry2 False, of placed sp', unfolded xo c']
        show ?thesis
        proof (cases r1)
          case (Inl e)
          with same1 have r1': "r1' = Inl e" by (simp add: same_cols_def)
          from body ry False c Inl have "res = (Inl e, st1)" by simp
          moreover from unf' r1' have "row_loop f' row placed sp' st' = Some (Inl e, st1')"
            by simp
          ultimately show ?thesis by (simp add: same_cols_def)
        next
          case (Inr ps)
          obtain p1 sp1 where ps: "ps = (p1, sp1)" by (cases ps)
          note r1 = Inr[unfolded ps]
          from same1 r1 obtain sp1' where r1': "r1' = Inr (p1, sp1')"
            and m1: "map coords_of sp1' = map coords_of sp1"
            by (auto simp: same_cols_def split: sum.splits)
          show ?thesis
          proof (cases "f_num_shapes f \<le> p1")
            case True
            with body ry False c r1 have "res = (Inr (p1, sp1), st1)" by simp
            moreover from unf' r1' True num
            have "row_loop f' row placed sp' st' = Some (Inr (p1, sp1'), st1')" by simp
            ultimately show ?thesis using m1 by (simp add: same_cols_def)
          next
            case nle: False
            with body ry False c r1 have rec: "rl f (row + 1) p1 sp1 st1 = Some res" by simp
            have d1: "st1' ! f_params f' = st1 ! f_params f" using pp(2) pp'(2) d' by simp
            from IH[OF rec, rule_format, of f' st1' sp1'] sl pp(1) pp'(1) d1 m1
            obtain res' where "row_loop f' (row + 1) p1 sp1' st1' = Some res'"
              and "same_cols (fst res) (fst res')" by blast
            moreover from unf' r1' nle num
            have "row_loop f' row placed sp' st' = row_loop f' (row + 1) p1 sp1' st1'" by simp
            ultimately show ?thesis by simp
          qed
        qed
      qed
    qed
  qed
qed

lemma row_loop_same:
  assumes "row_loop f row placed sp st = Some res"
    and "same_locals f f'" "f_params f < length st" "f_params f' < length st'"
    and "st' ! f_params f' = st ! f_params f" "map coords_of sp' = map coords_of sp"
  obtains res' where "row_loop f' row placed sp' st' = Some res'" "same_cols (fst res) (fst res')"
  using row_loop_same_aux[OF assms(1)] assms(2-) by blast

lemma sheets_loop_simps_done:
  "\<not> placed < f_num_shapes f \<Longrightarrow> sheets_loop f placed sheets st = Some (Inr sheets, st)"
  by (subst sheets_loop.simps) simp

lemma sheets_loop_simps_sheet:
  "placed < f_num_shapes f \<Longrightarrow> row_loop f 0 placed [] st = Some (r1, st1) \<Longrightarrow>
   sheets_loop f placed sheets st =
     (case r1 of
        Inl e \<Rightarrow> Some (Inl e, st1)
      | Inr (p1, sp1) \<Rightarrow>
          if sp1 = [] then Some (Inl (RuntimeError (f_shape_type f)), st1)
          else if p1 \<ge> f_num_shapes f then Some (Inr (sheets @ [sp1]), st1)
          else sheets_loop f p1 (sheets @ [sp1]) st1)"
  by (subst sheets_loop.simps) (simp split: sum.splits)

lemma sheets_loop_same_aux:
  assumes run: "sheets_loop f0 placed0 sheets0 st0 = Some res0"
  shows "\<forall>f' sheets' st'.
           same_locals f0 f' \<and> f_params f0 < length st0 \<and> f_params f' < length st' \<and>
           st' ! f_params f' = st0 ! f_params f0 \<and>
           map (map coords_of) sheets' = map (map coords_of) sheets0 \<longrightarrow>
           (\<exists>res'. sheets_loop f' placed0 sheets' st' = Some res' \<and>
                   same_sheets (fst res0) (fst res'))"
proof (rule sheets_loop.raw_induct
    [where P = "\<lambda>f placed sheets st res. \<forall>f' sheets' st'.
           same_locals f f' \<and> f_params f < length st \<and> f_params f' < length st' \<and>
           st' ! f_params f' = st ! f_params f \<and>
           map (map coords_of) sheets' = map (map coords_of) sheets \<longrightarrow>
           (\<exists>res'. sheets_loop f' placed sheets' st' = Some res' \<and>
                   same_sheets (fst res) (fst res'))",
     OF _ run])
  fix sl :: "frame \<Rightarrow> int \<Rightarrow> placed_shape list list \<Rightarrow> store \<Rightarrow>
             ((error + placed_shape list list) \<times> store) option"
    and f placed sheets st res
  assume IH: "\<And>f placed sheets st res. sl f placed sheets st = Some res \<Longrightarrow>
     \<forall>f' sheets' st'.
           same_locals f f' \<and> f_params f < length st \<and> f_params f' < length st' \<and>
           st' ! f_params f' = st ! f_params f \<and>
           map (map coords_of) sheets' = map (map coords_of) sheets \<longrightarrow>
           (\<exists>res'. sheets_loop f' placed sheets' st' = Some res' \<and>
                   same_sheets (fst res) (fst res'))"
  assume body: "(if placed < f_num_shapes f then
       (case row_loop f 0 placed [] st of
          None \<Rightarrow> None
        | Some (Inl e, st') \<Rightarrow> Some (Inl e, st')
        | Some (Inr (placed', sheet_positions), st') \<Rightarrow>
            if sheet_positions = [] then Some (Inl (RuntimeError (f_shape_type f)), st')
            else if placed' \<ge> f_num_shapes f
            then Some (Inr (sheets @ [sheet_positions]), st')
            else sl f placed' (sheets @ [sheet_positions]) st')
     else Some (Inr sheets, st)) = Some res"
  show "\<forall>f' sheets' st'.
           same_locals f f' \<and> f_params f < length st \<and> f_params f' < length st' \<and>
           st' ! f_params f' = st ! f_params f \<and>
           map (map coords_of) sheets' = map (map coords_of) sheets \<longrightarrow>
           (\<exists>res'. sheets_loop f' placed sheets' st' = Some res' \<and>
                   same_sheets (fst res) (fst res'))"
  proof (intro allI impI, elim conjE)
    fix f' sheets' st'
    assume same: "same_locals f f'" and len: "f_params f < length st"
      and len': "f_params f' < length st'" and d': "st' ! f_params f' = st ! f_params f"
      and m: "map (map coords_of) sheets' = map (map coords_of) sheets"
    have num: "f_num_shapes f' = f_num_shapes f" by (rule same_locals_fields[OF same])
    have ty: "f_shape_type f' = f_shape_type f" by (rule same_locals_fields[OF same])
    show "\<exists>res'. sheets_loop f' placed sheets' st' = Some res' \<and>
                 same_sheets (fst res) (fst res')"
    proof (cases "placed < f_num_shapes f")
      case False
      with body have "res = (Inr sheets, st)" by simp
      moreover from False num sheets_loop_simps_done[of placed f' sheets' st']
      have "sheets_loop f' placed sheets' st' = Some (Inr sheets', st')" by simp
      ultimately show ?thesis using m by (simp add: same_sheets_def)
    next
      case lt: True
      then have lt': "placed < f_num_shapes f'" by (simp add: num)
      from body lt obtain r1 st1 where rl: "row_loop f 0 placed [] st = Some (r1, st1)"
        by (cases "row_loop f 0 placed [] st") auto
      from rl same len len' d' obtain r1' st1'
        where rl': "row_loop f' 0 placed [] st' = Some (r1', st1')" and same1: "same_cols r1 r1'"
        by (rule row_loop_same[where sp' = "[]"]) auto
      note pp = extends_params[OF len row_loop_extends[OF rl len]]
      note pp' = extends_params[OF len' row_loop_extends[OF rl' len']]
      note unf' = sheets_loop_simps_sheet[OF lt' rl', of sheets']
      show ?thesis
      proof (cases r1)
        case (Inl e)
        with same1 have r1': "r1' = Inl e" by (simp add: same_cols_def)
        from body lt rl Inl have "res = (Inl e, st1)" by simp
        moreover from unf' r1' have "sheets_loop f' placed sheets' st' = Some (Inl e, st1')"
          by simp
        ultimately show ?thesis by (simp add: same_sheets_def)
      next
        case (Inr ps)
        obtain p1 sp1 where ps: "ps = (p1, sp1)" by (cases ps)
        note r1 = Inr[unfolded ps]
        from same1 r1 obtain sp1' where r1': "r1' = Inr (p1, sp1')"
          and m1: "map coords_of sp1' = map coords_of sp1"
          by (auto simp: same_cols_def split: sum.splits)
        from m1 have emp: "sp1' = [] \<longleftrightarrow> sp1 = []" by (metis map_is_Nil_conv)
        have m2: "map (map coords_of) (sheets' @ [sp1']) = map (map coords_of) (sheets @ [sp1])"
          using m m1 by simp
        show ?thesis
        proof (cases "sp1 = []")
          case True
          with body lt rl r1 have "res = (Inl (RuntimeError (f_shape_type f)), st1)" by simp
          moreover from unf' r1' True emp ty
          have "sheets_loop f' placed sheets' st' = Some (Inl (RuntimeError (f_shape_type f)), st1')"
            by simp
          ultimately show ?thesis by (simp add: same_sheets_def)
        next
          case ne: False
          show ?thesis
          proof (cases "f_num_shapes f \<le> p1")
            case True
            with body lt rl r1 ne have "res = (Inr (sheets @ [sp1]), st1)" by simp
            moreover from unf' r1' True ne emp num
            have "sheets_loop f' placed sheets' st' = Some (Inr (sheets' @ [sp1']), st1')"
              by simp
            ultimately show ?thesis using m2 by (simp add: same_sheets_def)
          next
            case False
            with body lt rl r1 ne have rec: "sl f p1 (sheets @ [sp1]) st1 = Some res" by simp
            have d1: "st1' ! f_params f' = st1 ! f_params f" using pp(2) pp'(2) d' by simp
            from IH[OF rec, rule_format, of f' st1' "sheets' @ [sp1']"] same pp(1) pp'(1) d1 m2
            obtain res' where "sheets_loop f' p1 (sheets' @ [sp1']) st1' = Some res'"
              and "same_sheets (fst res) (fst res')" by blast
            moreover from unf' r1' False ne emp num
            have "sheets_loop f' placed sheets' st' = sheets_loop f' p1 (sheets' @ [sp1']) st1'"
              by simp
            ultimately show ?thesis by simp
          qed
        qed
      qed
    qed
  qed
qed

lemma sheets_loop_same:
  assumes "sheets_loop f placed sheets st = Some res"
    and "same_locals f f'" "f_params f < length st" "f_params f' < length st'"
    and "st' ! f_params f' = st ! f_params f"
    and "map (map coords_of) sheets' = map (map coords_of) sheets"
  obtains res' where "sheets_loop f' placed sheets' st' = Some res'"
    "same_sheets (fst res) (fst res')"
  using sheets_loop_same_aux[OF assms(1)] assms(2-) by blast

lemma same_locals_frame_of:
  "same_locals (frame_of t (vars, a, dx, dy) n w h) (frame_of t (vars, a', dx, dy) n w h)"
  by (simp add: same_locals_def frame_of_def)

lemma grid_increments_same:
  assumes len: "a < length st" "a' < length st'" and d: "st' ! a' = st ! a"
    and gi: "grid_increments st t a w h c = (r0, s0)"
    and gi': "grid_increments st' t a' w h c = (r0', s0')"
  shows "(\<forall>e. r0 = Inl e \<longrightarrow> r0' = Inl e) \<and>
         (\<forall>vars a1 dx dy. r0 = Inr (vars, a1, dx, dy) \<longrightarrow>
            (\<exists>a1'. r0' = Inr (vars, a1', dx, dy) \<and> a1 < length s0 \<and> a1' < length s0' \<and>
                   s0' ! a1' = s0 ! a1))"
  using assms
  by (auto simp: grid_increments_def Let_def nth_append
           split: if_splits sum.splits)

lemma view_via_coords:
  assumes "\<forall>p \<in> set (concat sheets). st ! ps_params p = d"
  shows "view_sheets st sheets =
         map (map (\<lambda>(t, x, y). (t, d, x, y))) (map (map coords_of) sheets)"
  using assms by (auto simp: view_sheets_def view_shape_def coords_of_def)

text \<open>
  Claim C9.  The result of \<^verbatim>\<open>pack_shapes\<close> is determined by its arguments, the parameter
  mapping counting by its contents.  When a call returns, a call with the same shape
  type, count, sheet and clearance and a parameter dictionary of equal contents, in any
  store (in particular a second call after the first, with the same dictionary),
  returns too, with the same error or with sheets that read the same: as many sheets,
  as many shapes on each, the same types, parameters and centres in the same order.
\<close>

theorem pack_shapes_deterministic:
  assumes len: "params < length st" and len': "params' < length st'"
    and same: "st' ! params' = st ! params"
    and run: "pack_shapes st shape_type params num_shapes sheet_w sheet_h clearance =
                Some (res, st1)"
  shows "\<exists>res' st1'.
           pack_shapes st' shape_type params' num_shapes sheet_w sheet_h clearance =
             Some (res', st1') \<and>
           (case res of
              Inl e \<Rightarrow> res' = Inl e
            | Inr sheets \<Rightarrow>
                (\<exists>sheets'. res' = Inr sheets' \<and>
                   view_sheets st1' sheets' = view_sheets st1 sheets))"
proof -
  obtain r0 s0 where gi: "grid_increments st shape_type params sheet_w sheet_h clearance = (r0, s0)"
    by (cases "grid_increments st shape_type params sheet_w sheet_h clearance")
  obtain r0' s0' where
    gi': "grid_increments st' shape_type params' sheet_w sheet_h clearance = (r0', s0')"
    by (cases "grid_increments st' shape_type params' sheet_w sheet_h clearance")
  note rel = grid_increments_same[OF len len' same gi gi']
  show ?thesis
  proof (cases r0)
    case (Inl e)
    with rel have "r0' = Inl e" by simp
    with gi' have "pack_shapes st' shape_type params' num_shapes sheet_w sheet_h clearance =
        Some (Inl e, s0')" by (simp add: pack_shapes_frame_of)
    moreover from run gi Inl have "res = Inl e" by (simp add: pack_shapes_frame_of)
    ultimately show ?thesis by simp
  next
    case (Inr g)
    obtain vars a1 dx dy where g: "g = (vars, a1, dx, dy)" by (cases g)
    from rel Inr g obtain a1' where r0': "r0' = Inr (vars, a1', dx, dy)"
      and l1: "a1 < length s0" and l1': "a1' < length s0'" and d1: "s0' ! a1' = s0 ! a1"
      by auto
    let ?F = "frame_of shape_type (vars, a1, dx, dy) num_shapes sheet_w sheet_h"
    let ?F' = "frame_of shape_type (vars, a1', dx, dy) num_shapes sheet_w sheet_h"
    have fp: "f_params ?F = a1" "f_params ?F' = a1'" by (simp_all add: frame_of_def)
    from run gi Inr g have sl: "sheets_loop ?F 0 [] s0 = Some (res, st1)"
      by (simp add: pack_shapes_frame_of)
    have lF: "f_params ?F < length s0" and lF': "f_params ?F' < length s0'"
      using l1 l1' fp by simp_all
    have dF: "s0' ! f_params ?F' = s0 ! f_params ?F" using d1 fp by simp
    from sl same_locals_frame_of lF lF' dF obtain res2
      where sl': "sheets_loop ?F' 0 [] s0' = Some res2" and ss: "same_sheets res (fst res2)"
      by (rule sheets_loop_same[where sheets' = "[]"]) auto
    obtain res' st1' where res2: "res2 = (res', st1')" by (cases res2)
    from gi' r0' sl' res2
    have run': "pack_shapes st' shape_type params' num_shapes sheet_w sheet_h clearance =
        Some (res', st1')" by (simp add: pack_shapes_frame_of)
    have "case res of
              Inl e \<Rightarrow> res' = Inl e
            | Inr sheets \<Rightarrow>
                (\<exists>sheets'. res' = Inr sheets' \<and>
                   view_sheets st1' sheets' = view_sheets st1 sheets)"
    proof (cases res)
      case (Inl e)
      with ss res2 show ?thesis by (simp add: same_sheets_def)
    next
      case (Inr sheets)
      with ss res2 obtain sheets' where r': "res' = Inr sheets'"
        and m: "map (map coords_of) sheets = map (map coords_of) sheets'"
        by (auto simp: same_sheets_def split: sum.splits)
      from sheets_loop_extend[OF sl lF] Inr obtain k
        where ap: "appended ?F s0 st1 k (concat sheets)"
        unfolding sheets_extend_def by auto
      from sheets_loop_extend[OF sl'[unfolded res2] lF'] r' obtain k'
        where ap': "appended ?F' s0' st1' k' (concat sheets')"
        unfolding sheets_extend_def by auto
      have v: "\<forall>p \<in> set (concat sheets). st1 ! ps_params p = s0 ! a1"
        using appended_view(1)[OF ap] fp by simp
      have v': "\<forall>p \<in> set (concat sheets'). st1' ! ps_params p = s0 ! a1"
        using appended_view(1)[OF ap'] fp d1 by simp
      have "view_sheets st1' sheets' = view_sheets st1 sheets"
        unfolding view_via_coords[OF v] view_via_coords[OF v'] m ..
      with Inr r' show ?thesis by simp
    qed
    with run' show ?thesis by blast
  qed
qed

text \<open>A second call after the first, with the same dictionary.\<close>

theorem pack_shapes_deterministic_witness:
  "let st = [[''L'' \<mapsto> 1 :: real]];
       sheets = [[\<lparr>ps_type = ''square'', ps_params = 1, ps_x = 1 / 2, ps_y = 1 / 2\<rparr>,
                  \<lparr>ps_type = ''square'', ps_params = 2, ps_x = 3 / 2, ps_y = 1 / 2\<rparr>],
                 [\<lparr>ps_type = ''square'', ps_params = 3, ps_x = 1 / 2, ps_y = 1 / 2\<rparr>]];
       st1 = [[''L'' \<mapsto> 1], [''L'' \<mapsto> 1], [''L'' \<mapsto> 1], [''L'' \<mapsto> 1]]
   in 0 < length st \<and> 0 < length st1 \<and> st1 ! 0 = st ! 0 \<and>
      pack_shapes st ''square'' 0 3 2 1 0 = Some (Inr sheets, st1) \<and>
      (\<exists>res' st1'. pack_shapes st1 ''square'' 0 3 2 1 0 = Some (res', st1') \<and>
         (\<exists>sheets'. res' = Inr sheets' \<and> view_sheets st1' sheets' = view_sheets st1 sheets))"
proof -
  have len: "0 < length [[''L'' \<mapsto> 1 :: real]]" by simp
  have len': "0 < length [[''L'' \<mapsto> 1 :: real], [''L'' \<mapsto> 1], [''L'' \<mapsto> 1], [''L'' \<mapsto> 1]]"
    by simp
  have same: "[[''L'' \<mapsto> 1 :: real], [''L'' \<mapsto> 1], [''L'' \<mapsto> 1], [''L'' \<mapsto> 1]] ! 0 =
              [[''L'' \<mapsto> 1]] ! 0" by simp
  show ?thesis
    using pack_shapes_deterministic[OF len len' same square_request] square_request
    by (simp add: Let_def)
qed



















end
